theory Spec2Isabelle
  imports Complex_Main "HOL-Library.AList" "HOL-Library.Sublist"
begin

section \<open>TimerManager (src/utils/timer-manager.ts)\<close>

text \<open>
  The registry \<open>timers\<close> is a JavaScript \<open>Map\<close> from id to handle. It is modelled as an
  association list in insertion order: \<open>Map.set\<close> is \<open>AList.update\<close> (an existing key
  keeps its place, a new key goes to the end), \<open>Map.delete\<close> is \<open>AList.delete\<close> and
  \<open>Map.get\<close> is \<open>map_of\<close>.

  Times are integer milliseconds (\<open>Date.getTime()\<close>, \<open>Date.now()\<close>). A native
  \<open>NodeJS.Timeout\<close> object is a natural number; the runtime's table of armed native
  timers maps it to the closure it will call, which captures the kind of wrapper
  (interval or timeout) and the id. The application callback is opaque: a firing is
  given the outcome of that one call (\<open>Returns\<close> or \<open>Throws\<close>), and a callback is
  taken not to call back into the timer manager.
\<close>

datatype timer_type = Interval | Timeout

record timer_handle =
  id_t :: string
  type_t :: timer_type
  timer :: nat
  delay :: int
  created :: int
  lastExecuted :: "int option"
  executionCount :: nat
  maxExecutions :: "int option"
  ttlMs :: "int option"
  memoryPressureLimit :: "real option"
  streamCompleted :: bool

record lifecycle_options =
  opt_maxExecutions :: "int option"
  opt_ttlMs :: "int option"
  opt_memoryPressureLimit :: "real option"

text \<open>
  What the wrapper writes to the console, one constructor per \<open>console\<close> call, carrying
  the values the source interpolates into the message. The lines behind
  \<open>process.env.DEBUG_TIMERS\<close> are left out.
\<close>

datatype console_line =
    Warn_shutting_down_setInterval
  | Warn_shutting_down_setTimeout
  | Log_auto_terminating string
  | Error_callback string string
  | Log_clearing nat string
  | Log_cleared nat
  | Log_preparing_shutdown
  | Log_force_clearing nat
  | Warn_emergency
  | Warn_emergency_long_running string
  | Warn_emergency_high_execution string
  | Warn_emergency_intervals nat
  | Log_emergency_complete nat

datatype callback_outcome = Returns | Throws string

record timer_manager =
  timers :: "(string \<times> timer_handle) list"
  nextId :: nat
  isShuttingDown :: bool
  native :: "nat \<rightharpoonup> timer_type \<times> string"
  nextNative :: nat
  console :: "console_line list"
  invoked :: "string list"

definition new_timer_manager :: timer_manager where
  "new_timer_manager =
     \<lparr>timers = [], nextId = 1, isShuttingDown = False, native = Map.empty,
      nextNative = 0, console = [], invoked = []\<rparr>"

text \<open>Decimal rendering of \<open>nextId\<close> inside the template literal.\<close>

fun string_of_nat :: "nat \<Rightarrow> string" where
  "string_of_nat n =
     (if n < 10 then [char_of (48 + n)]
      else string_of_nat (n div 10) @ [char_of (48 + n mod 10)])"

declare string_of_nat.simps [simp del]

text \<open>\<open>clearTimer(id)\<close>: the boolean is the method's return value.\<close>

definition clearTimer :: "string \<Rightarrow> timer_manager \<Rightarrow> bool \<times> timer_manager" where
  "clearTimer i s =
     (case map_of (timers s) i of
        None \<Rightarrow> (False, s)
      | Some handle \<Rightarrow>
          (True, s\<lparr>native := (native s)(timer handle := None),
                   timers := AList.delete i (timers s)\<rparr>))"

text \<open>
  \<open>shouldTerminateTimer(handle)\<close>, given the two readings it takes: \<open>Date.now()\<close> and
  \<open>getCurrentMemoryPressure()\<close>. A guard \<open>handle.f && ...\<close> is false when the field is
  undefined or \<open>0\<close>.
\<close>

definition shouldTerminateTimer :: "timer_handle \<Rightarrow> int \<Rightarrow> real \<Rightarrow> bool" where
  "shouldTerminateTimer handle now pressure =
     (if (case maxExecutions handle of
            None \<Rightarrow> False
          | Some m \<Rightarrow> m \<noteq> 0 \<and> m \<le> int (executionCount handle)) then True
      else if (case ttlMs handle of
            None \<Rightarrow> False
          | Some t \<Rightarrow> t \<noteq> 0 \<and> t \<le> now - created handle) then True
      else if (case memoryPressureLimit handle of
            None \<Rightarrow> False
          | Some l \<Rightarrow> l \<noteq> 0 \<and> l < pressure) then True
      else if streamCompleted handle then True
      else False)"

text \<open>
  The readings one firing of an interval takes from its environment: clock and memory
  pressure at the check before the callback, the clock at \<open>lastExecuted = new Date()\<close>,
  the outcome of the callback, and clock and pressure at the check after it.
\<close>

record tick_env =
  now_before :: int
  pressure_before :: real
  now_exec :: int
  outcome :: callback_outcome
  now_after :: int
  pressure_after :: real

text \<open>The \<open>wrappedCallback\<close> closure that \<open>setInterval\<close> builds for id \<open>i\<close>.\<close>

definition interval_wrappedCallback :: "string \<Rightarrow> tick_env \<Rightarrow> timer_manager \<Rightarrow> timer_manager" where
  "interval_wrappedCallback i env s =
     (case map_of (timers s) i of
        None \<Rightarrow> s
      | Some handle \<Rightarrow>
          if shouldTerminateTimer handle (now_before env) (pressure_before env)
          then snd (clearTimer i (s\<lparr>console := console s @ [Log_auto_terminating i]\<rparr>))
          else
            let handle' = handle\<lparr>lastExecuted := Some (now_exec env),
                                 executionCount := executionCount handle + 1\<rparr>;
                s1 = s\<lparr>timers := AList.update i handle' (timers s),
                       invoked := invoked s @ [i]\<rparr>;
                s2 = (case outcome env of
                        Returns \<Rightarrow> s1
                      | Throws e \<Rightarrow> s1\<lparr>console := console s1 @ [Error_callback i e]\<rparr>)
            in if shouldTerminateTimer handle' (now_after env) (pressure_after env)
               then snd (clearTimer i (s2\<lparr>console := console s2 @ [Log_auto_terminating i]\<rparr>))
               else s2)"

text \<open>The \<open>wrappedCallback\<close> closure that \<open>setTimeout\<close> builds for id \<open>i\<close>.\<close>

definition timeout_wrappedCallback :: "string \<Rightarrow> tick_env \<Rightarrow> timer_manager \<Rightarrow> timer_manager" where
  "timeout_wrappedCallback i env s =
     (case map_of (timers s) i of
        None \<Rightarrow> s
      | Some handle \<Rightarrow>
          let s1 = s\<lparr>timers := AList.delete i (timers s), invoked := invoked s @ [i]\<rparr>
          in (case outcome env of
                Returns \<Rightarrow> s1
              | Throws e \<Rightarrow> s1\<lparr>console := console s1 @ [Error_callback i e]\<rparr>))"

text \<open>
  The runtime fires native timer \<open>t\<close>: a timer that was cleared (or never armed) does
  nothing; an interval stays armed, a timeout is spent by firing.
\<close>

definition fire :: "nat \<Rightarrow> tick_env \<Rightarrow> timer_manager \<Rightarrow> timer_manager" where
  "fire t env s =
     (case native s t of
        None \<Rightarrow> s
      | Some (Interval, i) \<Rightarrow> interval_wrappedCallback i env s
      | Some (Timeout, i) \<Rightarrow> timeout_wrappedCallback i env (s\<lparr>native := (native s)(t := None)\<rparr>))"

fun fires :: "nat \<Rightarrow> tick_env list \<Rightarrow> timer_manager \<Rightarrow> timer_manager" where
  "fires t [] s = s"
| "fires t (env # envs) s = fires t envs (fire t env s)"

text \<open>
  \<open>setInterval(callback, delay, name, options)\<close> at clock reading \<open>now\<close>; the string is
  the returned id. An undefined or empty \<open>name\<close> is falsy, and only then is \<open>nextId\<close>
  read and incremented.
\<close>

definition setInterval ::
  "int \<Rightarrow> string option \<Rightarrow> lifecycle_options option \<Rightarrow> int \<Rightarrow> timer_manager \<Rightarrow> string \<times> timer_manager" where
  "setInterval dl name options now s =
     (if isShuttingDown s
      then ('''', s\<lparr>console := console s @ [Warn_shutting_down_setInterval]\<rparr>)
      else
        let (i, s1) = (case name of
                         None \<Rightarrow> (''interval_'' @ string_of_nat (nextId s), s\<lparr>nextId := nextId s + 1\<rparr>)
                       | Some n \<Rightarrow>
                           if n = '''' then (''interval_'' @ string_of_nat (nextId s), s\<lparr>nextId := nextId s + 1\<rparr>)
                           else (n, s));
            s2 = (if map_of (timers s1) i \<noteq> None then snd (clearTimer i s1) else s1);
            t = nextNative s2;
            s3 = s2\<lparr>native := (native s2)(t \<mapsto> (Interval, i)), nextNative := t + 1\<rparr>;
            handle = \<lparr>id_t = i, type_t = Interval, timer = t, delay = dl, created = now,
                      lastExecuted = None, executionCount = 0,
                      maxExecutions = (case options of None \<Rightarrow> None | Some opts \<Rightarrow> opt_maxExecutions opts),
                      ttlMs = (case options of None \<Rightarrow> None | Some opts \<Rightarrow> opt_ttlMs opts),
                      memoryPressureLimit =
                        (case options of None \<Rightarrow> None | Some opts \<Rightarrow> opt_memoryPressureLimit opts),
                      streamCompleted = False\<rparr>
        in (i, s3\<lparr>timers := AList.update i handle (timers s3)\<rparr>))"

text \<open>\<open>setTimeout(callback, delay, name)\<close>; its handle has no lifecycle fields.\<close>

definition setTimeout ::
  "int \<Rightarrow> string option \<Rightarrow> int \<Rightarrow> timer_manager \<Rightarrow> string \<times> timer_manager" where
  "setTimeout dl name now s =
     (if isShuttingDown s
      then ('''', s\<lparr>console := console s @ [Warn_shutting_down_setTimeout]\<rparr>)
      else
        let (i, s1) = (case name of
                         None \<Rightarrow> (''timeout_'' @ string_of_nat (nextId s), s\<lparr>nextId := nextId s + 1\<rparr>)
                       | Some n \<Rightarrow>
                           if n = '''' then (''timeout_'' @ string_of_nat (nextId s), s\<lparr>nextId := nextId s + 1\<rparr>)
                           else (n, s));
            s2 = (if map_of (timers s1) i \<noteq> None then snd (clearTimer i s1) else s1);
            t = nextNative s2;
            s3 = s2\<lparr>native := (native s2)(t \<mapsto> (Timeout, i)), nextNative := t + 1\<rparr>;
            handle = \<lparr>id_t = i, type_t = Timeout, timer = t, delay = dl, created = now,
                      lastExecuted = None, executionCount = 0,
                      maxExecutions = None, ttlMs = None, memoryPressureLimit = None,
                      streamCompleted = False\<rparr>
        in (i, s3\<lparr>timers := AList.update i handle (timers s3)\<rparr>))"

text \<open>\<open>clearAll(reason)\<close>: every native timer of the registry is cleared, then the registry.\<close>

definition clearAll :: "string \<Rightarrow> timer_manager \<Rightarrow> timer_manager" where
  "clearAll reason s =
     (let n = length (timers s);
          s1 = s\<lparr>console := console s @ [Log_clearing n reason]\<rparr>;
          s2 = s1\<lparr>native := fold (\<lambda>(i, handle) m. m(timer handle := None)) (timers s1) (native s1)\<rparr>;
          s3 = s2\<lparr>timers := []\<rparr>
      in s3\<lparr>console := console s3 @ [Log_cleared n]\<rparr>)"

text \<open>\<open>findProblematicTimers()\<close> at clock reading \<open>now\<close>: the pair (longRunning, highExecution).\<close>

definition findProblematicTimers :: "int \<Rightarrow> timer_manager \<Rightarrow> timer_handle list \<times> timer_handle list" where
  "findProblematicTimers now s =
     (let longRunningThreshold = 5 * 60 * 1000;
          highExecutionThreshold = 1000
      in (filter (\<lambda>handle. now - created handle > longRunningThreshold) (map snd (timers s)),
          filter (\<lambda>handle. executionCount handle > highExecutionThreshold) (map snd (timers s))))"

text \<open>\<open>prepareShutdown()\<close>; the forced \<open>clearAll\<close> one second later is a separate event.\<close>

definition prepareShutdown :: "timer_manager \<Rightarrow> timer_manager" where
  "prepareShutdown s = s\<lparr>isShuttingDown := True, console := console s @ [Log_preparing_shutdown]\<rparr>"

definition forced_shutdown :: "timer_manager \<Rightarrow> timer_manager" where
  "forced_shutdown s =
     (if length (timers s) > 0
      then clearAll ''forced_shutdown''
             (s\<lparr>console := console s @ [Log_force_clearing (length (timers s))]\<rparr>)
      else s)"

text \<open>The two \<open>for ... of\<close> loops of \<open>emergencyCleanup\<close> and its \<open>forEach\<close>.\<close>

fun emergency_clear ::
  "(string \<Rightarrow> console_line) \<Rightarrow> timer_handle list \<Rightarrow> timer_manager \<Rightarrow> timer_manager" where
  "emergency_clear msg [] s = s"
| "emergency_clear msg (handle # hs) s =
     emergency_clear msg hs
       (snd (clearTimer (id_t handle) (s\<lparr>console := console s @ [msg (id_t handle)]\<rparr>)))"

fun clear_each :: "string list \<Rightarrow> timer_manager \<Rightarrow> timer_manager" where
  "clear_each [] s = s"
| "clear_each (i # ids) s = clear_each ids (snd (clearTimer i s))"

text \<open>\<open>emergencyCleanup()\<close> at clock reading \<open>now\<close>. It takes no cap.\<close>

definition emergencyCleanup :: "int \<Rightarrow> timer_manager \<Rightarrow> timer_manager" where
  "emergencyCleanup now s =
     (let s0 = s\<lparr>console := console s @ [Warn_emergency]\<rparr>;
          problematicTimers = findProblematicTimers now s0;
          s1 = emergency_clear Warn_emergency_long_running (fst problematicTimers) s0;
          s2 = emergency_clear Warn_emergency_high_execution (snd problematicTimers) s1;
          s3 = (if length (timers s2) > 10
                then let intervalIds = map fst (filter (\<lambda>(i, handle). type_t handle = Interval) (timers s2))
                     in clear_each intervalIds
                          (s2\<lparr>console := console s2 @ [Warn_emergency_intervals (length intervalIds)]\<rparr>)
                else s2)
      in s3\<lparr>console := console s3 @ [Log_emergency_complete (length (timers s3))]\<rparr>)"

text \<open>\<open>markStreamCompleted(timerId)\<close> and \<open>updateTimerLifecycle(timerId, updates)\<close>.\<close>

definition markStreamCompleted :: "string \<Rightarrow> timer_manager \<Rightarrow> bool \<times> timer_manager" where
  "markStreamCompleted i s =
     (case map_of (timers s) i of
        None \<Rightarrow> (False, s)
      | Some handle \<Rightarrow>
          (True, s\<lparr>timers := AList.update i (handle\<lparr>streamCompleted := True\<rparr>) (timers s)\<rparr>))"

definition updateTimerLifecycle :: "string \<Rightarrow> lifecycle_options \<Rightarrow> timer_manager \<Rightarrow> bool \<times> timer_manager" where
  "updateTimerLifecycle i updates s =
     (case map_of (timers s) i of
        None \<Rightarrow> (False, s)
      | Some handle \<Rightarrow>
          let h1 = (case opt_maxExecutions updates of
                      None \<Rightarrow> handle | Some m \<Rightarrow> handle\<lparr>maxExecutions := Some m\<rparr>);
              h2 = (case opt_ttlMs updates of
                      None \<Rightarrow> h1 | Some t \<Rightarrow> h1\<lparr>ttlMs := Some t\<rparr>);
              h3 = (case opt_memoryPressureLimit updates of
                      None \<Rightarrow> h2 | Some l \<Rightarrow> h2\<lparr>memoryPressureLimit := Some l\<rparr>)
          in (True, s\<lparr>timers := AList.update i h3 (timers s)\<rparr>))"

text \<open>
  \<open>getTerminationReason(handle)\<close>, with the values its message interpolates.
  \<open>Math.round(x / 1000)\<close> of an integer \<open>x\<close> is \<open>(x + 500) div 1000\<close>.
\<close>

datatype termination_reason =
    Max_executions_reached nat int
  | TTL_expired int int
  | Memory_pressure_limit real real
  | Stream_completed
  | Unknown

definition getTerminationReason :: "timer_handle \<Rightarrow> int \<Rightarrow> real \<Rightarrow> termination_reason" where
  "getTerminationReason handle now pressure =
     (if (case maxExecutions handle of
            None \<Rightarrow> False
          | Some m \<Rightarrow> m \<noteq> 0 \<and> m \<le> int (executionCount handle))
      then Max_executions_reached (executionCount handle) (the (maxExecutions handle))
      else if (case ttlMs handle of
            None \<Rightarrow> False
          | Some t \<Rightarrow> t \<noteq> 0 \<and> t \<le> now - created handle)
      then TTL_expired ((now - created handle + 500) div 1000) ((the (ttlMs handle) + 500) div 1000)
      else if (case memoryPressureLimit handle of
            None \<Rightarrow> False
          | Some l \<Rightarrow> l \<noteq> 0 \<and> l < pressure)
      then Memory_pressure_limit pressure (the (memoryPressureLimit handle))
      else if streamCompleted handle then Stream_completed
      else Unknown)"

text \<open>A firing whose three clock readings coincide, at memory pressure one half.\<close>

definition tick_at :: "int \<Rightarrow> callback_outcome \<Rightarrow> tick_env" where
  "tick_at now out =
     \<lparr>now_before = now, pressure_before = 1 / 2, now_exec = now, outcome = out,
      now_after = now, pressure_after = 1 / 2\<rparr>"

text \<open>
  The public operations and the runtime's events, to speak about every state the manager
  can reach: \<open>Op_fire\<close> is the runtime firing a native timer, \<open>Op_forced_shutdown\<close> the
  one-second timeout that \<open>prepareShutdown\<close> arms.
\<close>

datatype tm_op =
    Op_setInterval int "string option" "lifecycle_options option" int
  | Op_setTimeout int "string option" int
  | Op_clearTimer string
  | Op_clearAll string
  | Op_fire nat tick_env
  | Op_markStreamCompleted string
  | Op_updateTimerLifecycle string lifecycle_options
  | Op_prepareShutdown
  | Op_forced_shutdown
  | Op_emergencyCleanup int

fun apply_op :: "tm_op \<Rightarrow> timer_manager \<Rightarrow> timer_manager" where
  "apply_op (Op_setInterval dl name options now) s = snd (setInterval dl name options now s)"
| "apply_op (Op_setTimeout dl name now) s = snd (setTimeout dl name now s)"
| "apply_op (Op_clearTimer i) s = snd (clearTimer i s)"
| "apply_op (Op_clearAll reason) s = clearAll reason s"
| "apply_op (Op_fire t env) s = fire t env s"
| "apply_op (Op_markStreamCompleted i) s = snd (markStreamCompleted i s)"
| "apply_op (Op_updateTimerLifecycle i updates) s = snd (updateTimerLifecycle i updates s)"
| "apply_op Op_prepareShutdown s = prepareShutdown s"
| "apply_op Op_forced_shutdown s = forced_shutdown s"
| "apply_op (Op_emergencyCleanup now) s = emergencyCleanup now s"

fun run_ops :: "tm_op list \<Rightarrow> timer_manager \<Rightarrow> timer_manager" where
  "run_ops [] s = s"
| "run_ops (op # ops) s = run_ops ops (apply_op op s)"

text \<open>
  The registry and the runtime agree: ids are unique, a handle is stored under its own id
  and its native timer is armed with the closure for that id, and every armed native timer
  belongs to the handle registered under the id its closure captured.
\<close>

definition registry_ok :: "timer_manager \<Rightarrow> bool" where
  "registry_ok s \<longleftrightarrow>
     distinct (map fst (timers s))
   \<and> (\<forall>(k, h) \<in> set (timers s). id_t h = k \<and> native s (timer h) = Some (type_t h, k))
   \<and> (\<forall>t ty k. native s t = Some (ty, k)
         \<longrightarrow> t < nextNative s \<and> (\<exists>h. map_of (timers s) k = Some h \<and> timer h = t))"

section \<open>Mutex (src/utils/mutex.ts)\<close>

text \<open>
  Every call of \<open>lock\<close> creates two closures, a timer and a promise; the call is named by
  its number \<open>w\<close> in the order of the calls. \<open>TryLock w holderId\<close> is the inner closure
  \<open>tryLock\<close> of call \<open>w\<close>, \<open>Wrapped w holderId\<close> the closure stored in the queue item
  (\<open>clearTimeout(timeout); tryLock()\<close>). The timer of call \<open>w\<close> is \<open>w\<close> itself.

  Beside the fields of the class, the state holds what the runtime holds: the armed
  timeout timers with the \<open>timeoutMs\<close> and \<open>holderId\<close> their handler captured, the callbacks scheduled
  with \<open>setImmediate\<close> (in order), and how the promises of the calls were settled:
  \<open>resolved\<close> lists the calls that were granted the lock, in the order of the grants.
\<close>

datatype closure = TryLock nat "string option" | Wrapped nat "string option"

record queue_item =
  tryLock :: closure
  timeout :: nat

text \<open>The \<open>Error\<close> a timed-out call is rejected with: \<open>timeoutMs\<close>, holder, queue length.\<close>

datatype mutex_error = Mutex_timeout int "string option" nat

datatype mutex_console = Warn_high_contention nat nat

record mutex =
  queue :: "queue_item list"
  locked :: bool
  lockAcquisitionCount :: nat
  contentionCount :: nat
  maxQueueSize :: nat
  currentHolder :: "string option"
  nextCall :: nat
  armed :: "(nat \<times> int \<times> string option) list"
  immediates :: "closure list"
  resolved :: "nat list"
  rejected :: "(nat \<times> mutex_error) list"
  mutex_log :: "mutex_console list"

definition new_mutex :: mutex where
  "new_mutex =
     \<lparr>queue = [], locked = False, lockAcquisitionCount = 0, contentionCount = 0,
      maxQueueSize = 0, currentHolder = None, nextCall = 0, armed = [], immediates = [],
      resolved = [], rejected = [], mutex_log = []\<rparr>"

text \<open>A promise settles once: \<open>resolve\<close> after \<open>reject\<close> (or the reverse) has no effect.\<close>

definition resolve :: "nat \<Rightarrow> mutex \<Rightarrow> mutex" where
  "resolve w s =
     (if w \<in> set (resolved s) \<or> w \<in> fst ` set (rejected s) then s
      else s\<lparr>resolved := resolved s @ [w]\<rparr>)"

definition reject :: "nat \<Rightarrow> mutex_error \<Rightarrow> mutex \<Rightarrow> mutex" where
  "reject w e s =
     (if w \<in> set (resolved s) \<or> w \<in> fst ` set (rejected s) then s
      else s\<lparr>rejected := rejected s @ [(w, e)]\<rparr>)"

definition clearTimeout :: "nat \<Rightarrow> mutex \<Rightarrow> mutex" where
  "clearTimeout t s = s\<lparr>armed := filter (\<lambda>(w, captured). w \<noteq> t) (armed s)\<rparr>"

text \<open>The body of the inner closure \<open>tryLock\<close> of call \<open>w\<close>.\<close>

definition tryLock_body :: "nat \<Rightarrow> string option \<Rightarrow> mutex \<Rightarrow> mutex" where
  "tryLock_body w holderId s =
     (if \<not> locked s
      then resolve w (s\<lparr>locked := True, lockAcquisitionCount := lockAcquisitionCount s + 1,
                         currentHolder := holderId\<rparr>)
      else
        let s1 = s\<lparr>contentionCount := contentionCount s + 1\<rparr>
        in if contentionCount s1 mod 100 = 0
           then s1\<lparr>mutex_log := mutex_log s1 @
                      [Warn_high_contention (contentionCount s1) (length (queue s1))]\<rparr>
           else s1)"

text \<open>Calling a closure: the inner one, or the queue item's wrapper around it.\<close>

fun call :: "closure \<Rightarrow> mutex \<Rightarrow> mutex" where
  "call (TryLock w holderId) s = tryLock_body w holderId s"
| "call (Wrapped w holderId) s = tryLock_body w holderId (clearTimeout w s)"

text \<open>
  \<open>lock(timeoutMs, holderId)\<close>, the synchronous body of the promise executor. The result
  is the number of the call and the new state.
\<close>

definition lock :: "int \<Rightarrow> string option \<Rightarrow> mutex \<Rightarrow> nat \<times> mutex" where
  "lock timeoutMs holderId s =
     (let w = nextCall s;
          queueItem = \<lparr>tryLock = Wrapped w holderId, timeout = w\<rparr>;
          s1 = s\<lparr>nextCall := w + 1, armed := armed s @ [(w, timeoutMs, holderId)]\<rparr>;
          s2 = s1\<lparr>queue := queue s1 @ [queueItem]\<rparr>;
          s3 = s2\<lparr>maxQueueSize := max (maxQueueSize s2) (length (queue s2))\<rparr>
      in (w, if length (queue s3) = 1 then call (tryLock queueItem) s3 else s3))"

text \<open>\<open>Array.prototype.findIndex\<close> (\<open>None\<close> for \<open>-1\<close>) and \<open>splice(i, 1)\<close>.\<close>

fun findIndex :: "('a \<Rightarrow> bool) \<Rightarrow> 'a list \<Rightarrow> nat option" where
  "findIndex P [] = None"
| "findIndex P (x # xs) = (if P x then Some 0 else map_option Suc (findIndex P xs))"

definition splice1 :: "nat \<Rightarrow> 'a list \<Rightarrow> 'a list" where
  "splice1 i xs = take i xs @ drop (i + 1) xs"

text \<open>
  The handler of the timeout timer of call \<open>w\<close>. It looks in the queue for an item whose
  \<open>tryLock\<close> is the inner closure of the call, where the items hold the wrapper.
\<close>

definition timeout_handler :: "nat \<Rightarrow> string option \<Rightarrow> int \<Rightarrow> mutex \<Rightarrow> mutex" where
  "timeout_handler w holderId timeoutMs s =
     (let s1 = (case findIndex (\<lambda>item. tryLock item = TryLock w holderId) (queue s) of
                  None \<Rightarrow> s
                | Some queueIndex \<Rightarrow> s\<lparr>queue := splice1 queueIndex (queue s)\<rparr>)
      in reject w (Mutex_timeout timeoutMs (currentHolder s1) (length (queue s1))) s1)"

text \<open>\<open>unlock()\<close>: the next item's wrapper is scheduled with \<open>setImmediate\<close>.\<close>

definition unlock :: "mutex \<Rightarrow> mutex" where
  "unlock s =
     (let s1 = s\<lparr>locked := False, currentHolder := None\<rparr>;
          s2 = (case queue s1 of
                  [] \<Rightarrow> s1
                | current # rest \<Rightarrow> clearTimeout (timeout current) (s1\<lparr>queue := rest\<rparr>))
      in if length (queue s2) > 0
         then s2\<lparr>immediates := immediates s2 @ [tryLock (hd (queue s2))]\<rparr>
         else s2)"

record mutex_stats =
  isLocked :: bool
  queueSize :: nat
  stat_lockAcquisitionCount :: nat
  stat_contentionCount :: nat
  stat_maxQueueSize :: nat
  stat_currentHolder :: "string option"

definition getStats :: "mutex \<Rightarrow> mutex_stats" where
  "getStats s =
     \<lparr>isLocked = locked s, queueSize = length (queue s),
      stat_lockAcquisitionCount = lockAcquisitionCount s,
      stat_contentionCount = contentionCount s,
      stat_maxQueueSize = maxQueueSize s,
      stat_currentHolder = currentHolder s\<rparr>"

text \<open>
  \<open>withLock(fn, timeoutMs, holderId)\<close> from the moment the promise of its \<open>lock\<close> call
  settles. A rejected \<open>lock\<close> is rethrown by \<open>await\<close> before the \<open>try\<close>. Otherwise
  \<open>fn\<close> runs, and when its promise has settled, in state \<open>s\<close>, with a value (\<open>Inr\<close>)
  or an exception (\<open>Inl\<close>), the \<open>finally\<close> block calls \<open>unlock\<close> and the outcome of
  \<open>fn\<close> is the outcome of \<open>withLock\<close>.
\<close>

datatype 'e withLock_error = Lock_rejected mutex_error | Fn_threw 'e

definition withLock :: "mutex_error + unit \<Rightarrow> 'e + 'a \<Rightarrow> mutex \<Rightarrow> ('e withLock_error + 'a) \<times> mutex" where
  "withLock lock_outcome fn_outcome s =
     (case lock_outcome of
        Inl err \<Rightarrow> (Inl (Lock_rejected err), s)
      | Inr u \<Rightarrow>
          (case fn_outcome of
             Inl e \<Rightarrow> (Inl (Fn_threw e), unlock s)
           | Inr v \<Rightarrow> (Inr v, unlock s)))"

text \<open>
  What can happen to a mutex: a call of \<open>lock\<close>, a call of the \<open>unlock\<close> closure, the
  runtime running the oldest scheduled immediate, and the runtime firing the timeout timer
  of a call (a cleared timer does not fire).
\<close>

datatype mutex_event =
    Lock int "string option"
  | Unlock
  | Run_immediate
  | Timeout_fires nat

fun step :: "mutex_event \<Rightarrow> mutex \<Rightarrow> mutex" where
  "step (Lock timeoutMs holderId) s = snd (lock timeoutMs holderId s)"
| "step Unlock s = unlock s"
| "step Run_immediate s =
     (case immediates s of
        [] \<Rightarrow> s
      | c # cs \<Rightarrow> call c (s\<lparr>immediates := cs\<rparr>))"
| "step (Timeout_fires w) s =
     (case map_of (armed s) w of
        None \<Rightarrow> s
      | Some (timeoutMs, holderId) \<Rightarrow> timeout_handler w holderId timeoutMs (clearTimeout w s))"

fun run :: "mutex_event list \<Rightarrow> mutex \<Rightarrow> mutex" where
  "run [] s = s"
| "run (e # es) s = run es (step e s)"

text \<open>
  A trace in which the \<open>unlock\<close> closure is only called while the lock is held (each
  holder releases once) and no armed timeout timer fires (no waiter times out).
\<close>

fun disciplined :: "mutex_event list \<Rightarrow> mutex \<Rightarrow> bool" where
  "disciplined [] s = True"
| "disciplined (Unlock # es) s = (locked s \<and> disciplined es (step Unlock s))"
| "disciplined (Timeout_fires w # es) s =
     (map_of (armed s) w = None \<and> disciplined es (step (Timeout_fires w) s))"
| "disciplined (e # es) s = disciplined es (step e s)"

fun is_Lock :: "mutex_event \<Rightarrow> bool" where
  "is_Lock (Lock timeoutMs holderId) = True"
| "is_Lock e = False"

text \<open>
  How the promise of call \<open>w\<close> stands: fulfilled (with the \<open>unlock\<close> closure), rejected
  with its error, or \<open>None\<close> while it is pending.
\<close>

definition lock_promise :: "nat \<Rightarrow> mutex \<Rightarrow> (mutex_error + unit) option" where
  "lock_promise w s =
     (if w \<in> set (resolved s) then Some (Inr ())
      else map_option Inl (map_of (rejected s) w))"

text \<open>
  A mutex held by \<open>A\<close> (call 0), with \<open>X\<close> (call 1, \<open>timeoutMs = 50\<close>), \<open>W1\<close> and \<open>W2\<close>
  (calls 2 and 3, \<open>timeoutMs = 5000\<close>) queued in that order, after the timer of \<open>X\<close> has
  fired.
\<close>

definition holder_and_timed_out_waiter :: mutex where
  "holder_and_timed_out_waiter =
     run [Lock 5000 (Some ''A''), Lock 50 (Some ''X''), Lock 5000 (Some ''W1''),
          Lock 5000 (Some ''W2''), Timeout_fires 1] new_mutex"

text \<open>
  The shape of every state a disciplined trace reaches from \<open>new_mutex\<close>: the calls are
  granted in the order \<open>0, 1, 2, ...\<close>; the queue holds, in order, the calls from the
  current holder (or, when the lock is free, from the next one to be granted) to the
  latest; and while the lock is free and somebody waits, exactly the wrapper of the
  first waiter is scheduled.
\<close>

definition fifo_inv :: "mutex \<Rightarrow> bool" where
  "fifo_inv s \<longleftrightarrow>
     resolved s = [0 ..< length (resolved s)]
   \<and> rejected s = []
   \<and> (locked s \<longrightarrow> 0 < length (resolved s))
   \<and> length (resolved s) \<le> nextCall s
   \<and> map timeout (queue s) = [length (resolved s) - (if locked s then 1 else 0) ..< nextCall s]
   \<and> (\<forall>q \<in> set (queue s). \<exists>holderId. tryLock q = Wrapped (timeout q) holderId)
   \<and> immediates s = (if \<not> locked s \<and> queue s \<noteq> [] then [tryLock (hd (queue s))] else [])"

section \<open>ResourceLifecycleManager (src/unnamed/part_003, imported as utils/resource-lifecycle)\<close>

text \<open>
  A promise settles as \<open>Fulfilled\<close> or \<open>Rejected\<close>. The \<open>cleanup\<close> method of a resource is
  opaque; the model records how the promise it returns settles (a promise that never
  settles is outside the model) and, as an effect, that it was called. An optional
  \<open>getMemoryUsage\<close> method is the value it returns, \<open>None\<close> when the method is absent. No
  listener is attached to the emitter.
\<close>

datatype 'a settled = Fulfilled 'a | Rejected string

record native_resource =
  id_r :: string
  type_r :: string
  cleanup :: "unit settled"
  getMemoryUsage :: "int option"

record resource_info =
  resource :: native_resource
  createdAt :: int
  lastAccessed :: int
  accessCount :: nat
  memoryUsage :: "int option"

text \<open>What the manager does to the outside, in order: calls, emitted events, console lines.\<close>

datatype rm_effect =
    Cleanup_called string
  | Emit_resource_registered string string
  | Emit_resource_unregistered string string
  | Emit_resource_cleanup_failed string string
  | Warn_already_registered string
  | Warn_limit_exceeded nat int
  | Error_failed_to_cleanup string string
  | Error_emergency_initiated
  | Error_emergency_completed nat

record resource_manager =
  resources :: "(string \<times> resource_info) list"
  maxIdleTime :: int
  maxResources :: int
  effects :: "rm_effect list"

text \<open>The constructor: an option that is undefined or \<open>0\<close> takes its default.\<close>

definition new_resource_manager :: "int option \<Rightarrow> int option \<Rightarrow> resource_manager" where
  "new_resource_manager opt_maxIdleTime opt_maxResources =
     \<lparr>resources = [],
      maxIdleTime = (case opt_maxIdleTime of None \<Rightarrow> 300000 | Some t \<Rightarrow> if t = 0 then 300000 else t),
      maxResources = (case opt_maxResources of None \<Rightarrow> 100 | Some m \<Rightarrow> if m = 0 then 100 else m),
      effects = []\<rparr>"

text \<open>
  \<open>unregister\<close> is an \<open>async\<close> method: a call runs up to \<open>await info.resource.cleanup()\<close>
  and is suspended there; it is resumed when the promise of \<open>cleanup\<close> has settled.
  \<open>awaiting\<close> says who waits for the promise of a suspended \<open>unregister\<close>: nobody (the call
  was not awaited), or the \<open>for\<close> loop of \<open>performEmergencyCleanup\<close> with the ids it has
  still to do and its \<open>cleanupCount\<close>.
\<close>

datatype awaiting = Nobody | Emergency_loop "string list" nat

datatype task = Suspended_unregister string resource_info awaiting

text \<open>\<open>unregister(resourceId)\<close> up to its \<open>await\<close>: \<open>None\<close> when it returned at once.\<close>

definition unregister_begin ::
  "string \<Rightarrow> resource_manager \<Rightarrow> resource_manager \<times> (string \<times> resource_info) option" where
  "unregister_begin resourceId s =
     (case map_of (resources s) resourceId of
        None \<Rightarrow> (s, None)
      | Some info \<Rightarrow> (s\<lparr>effects := effects s @ [Cleanup_called resourceId]\<rparr>, Some (resourceId, info)))"

text \<open>
  \<open>unregister(resourceId)\<close> from its \<open>await\<close> on, in the state \<open>s\<close> it is resumed in; the
  first component is how the promise of \<open>unregister\<close> settles.
\<close>

definition unregister_resume ::
  "string \<Rightarrow> resource_info \<Rightarrow> resource_manager \<Rightarrow> unit settled \<times> resource_manager" where
  "unregister_resume resourceId info s =
     (case cleanup (resource info) of
        Fulfilled u \<Rightarrow>
          (Fulfilled (),
           s\<lparr>resources := AList.delete resourceId (resources s),
             effects := effects s @ [Emit_resource_unregistered resourceId (type_r (resource info))]\<rparr>)
      | Rejected error \<Rightarrow>
          (Fulfilled (),
           s\<lparr>resources := AList.delete resourceId (resources s),
             effects := effects s @ [Error_failed_to_cleanup resourceId error,
                                     Emit_resource_cleanup_failed resourceId error]\<rparr>))"

text \<open>
  The \<open>for\<close> loop of \<open>performEmergencyCleanup\<close> over the ids still to do, up to the next
  suspension or to its end. An \<open>unregister\<close> that returns at once (the id is no longer
  tracked) changes nothing, and the loop goes on to the next id.
\<close>

fun emergency_loop :: "string list \<Rightarrow> nat \<Rightarrow> resource_manager \<Rightarrow> resource_manager \<times> task option" where
  "emergency_loop [] cleanupCount s =
     (s\<lparr>effects := effects s @ [Error_emergency_completed cleanupCount]\<rparr>, None)"
| "emergency_loop (i # ids) cleanupCount s =
     (case unregister_begin i s of
        (s', None) \<Rightarrow> emergency_loop ids cleanupCount s'
      | (s', Some (resourceId, info)) \<Rightarrow>
          (s', Some (Suspended_unregister resourceId info (Emergency_loop ids cleanupCount))))"

text \<open>
  \<open>performEmergencyCleanup()\<close> up to its first suspension. \<open>Array.prototype.sort\<close> is
  stable, as is \<open>sort_key\<close>; \<open>Math.floor(n * 0.25)\<close> is \<open>n div 4\<close>.
\<close>

definition performEmergencyCleanup :: "resource_manager \<Rightarrow> resource_manager \<times> task option" where
  "performEmergencyCleanup s =
     (let s0 = s\<lparr>effects := effects s @ [Error_emergency_initiated]\<rparr>;
          resourceEntries = sort_key (\<lambda>(i, info). lastAccessed info) (resources s0);
          cleanupCount = length resourceEntries div 4;
          toCleanup = take cleanupCount resourceEntries
      in emergency_loop (map fst toCleanup) cleanupCount s0)"

text \<open>
  \<open>register(resource)\<close> at clock reading \<open>now\<close>. It is not \<open>async\<close> and awaits nothing: the
  second component lists the tasks it leaves suspended when it returns.
\<close>

definition register ::
  "native_resource \<Rightarrow> int \<Rightarrow> resource_manager \<Rightarrow> resource_manager \<times> task list" where
  "register res now s =
     (let (s1, t1) =
            (if map_of (resources s) (id_r res) \<noteq> None
             then (case unregister_begin (id_r res)
                          (s\<lparr>effects := effects s @ [Warn_already_registered (id_r res)]\<rparr>) of
                     (s', None) \<Rightarrow> (s', [])
                   | (s', Some (resourceId, info)) \<Rightarrow> (s', [Suspended_unregister resourceId info Nobody]))
             else (s, []));
          info = \<lparr>resource = res, createdAt = now, lastAccessed = now, accessCount = 1,
                  memoryUsage = getMemoryUsage res\<rparr>;
          s2 = s1\<lparr>resources := AList.update (id_r res) info (resources s1)\<rparr>;
          (s3, t3) =
            (if int (length (resources s2)) > maxResources s2
             then (case performEmergencyCleanup
                          (s2\<lparr>effects := effects s2 @
                                 [Warn_limit_exceeded (length (resources s2)) (maxResources s2)]\<rparr>) of
                     (s', None) \<Rightarrow> (s', [])
                   | (s', Some t) \<Rightarrow> (s', [t]))
             else (s2, []))
      in (s3\<lparr>effects := effects s3 @ [Emit_resource_registered (id_r res) (type_r res)]\<rparr>, t1 @ t3))"

text \<open>\<open>access(resourceId)\<close> at clock reading \<open>now\<close>.\<close>

definition access :: "string \<Rightarrow> int \<Rightarrow> resource_manager \<Rightarrow> resource_manager" where
  "access resourceId now s =
     (case map_of (resources s) resourceId of
        None \<Rightarrow> s
      | Some info \<Rightarrow>
          let info1 = info\<lparr>lastAccessed := now, accessCount := accessCount info + 1\<rparr>;
              info2 = (case getMemoryUsage (resource info1) of
                         None \<Rightarrow> info1
                       | Some m \<Rightarrow> info1\<lparr>memoryUsage := Some m\<rparr>)
          in s\<lparr>resources := AList.update resourceId info2 (resources s)\<rparr>)"

text \<open>
  Running to completion with nothing else in between: an awaited \<open>unregister\<close>, the loop
  of the emergency cleanup, a suspended task, and the tasks a call left behind.
\<close>

definition unregister :: "string \<Rightarrow> resource_manager \<Rightarrow> unit settled \<times> resource_manager" where
  "unregister resourceId s =
     (case unregister_begin resourceId s of
        (s', None) \<Rightarrow> (Fulfilled (), s')
      | (s', Some (i, info)) \<Rightarrow> unregister_resume i info s')"

fun finish_loop :: "string list \<Rightarrow> nat \<Rightarrow> resource_manager \<Rightarrow> resource_manager" where
  "finish_loop [] cleanupCount s = s\<lparr>effects := effects s @ [Error_emergency_completed cleanupCount]\<rparr>"
| "finish_loop (i # ids) cleanupCount s =
     (case unregister i s of
        (Rejected error, s') \<Rightarrow> s'
      | (Fulfilled u, s') \<Rightarrow> finish_loop ids cleanupCount s')"

definition finish_task :: "task \<Rightarrow> resource_manager \<Rightarrow> resource_manager" where
  "finish_task t s =
     (case t of Suspended_unregister resourceId info k \<Rightarrow>
        (case unregister_resume resourceId info s of
           (Rejected error, s') \<Rightarrow> s'
         | (Fulfilled u, s') \<Rightarrow>
             (case k of
                Nobody \<Rightarrow> s'
              | Emergency_loop ids cleanupCount \<Rightarrow> finish_loop ids cleanupCount s')))"

definition finish_tasks :: "task list \<Rightarrow> resource_manager \<Rightarrow> resource_manager" where
  "finish_tasks ts s = fold finish_task ts s"

definition performEmergencyCleanup_complete :: "resource_manager \<Rightarrow> resource_manager" where
  "performEmergencyCleanup_complete s =
     (case performEmergencyCleanup s of
        (s', None) \<Rightarrow> s'
      | (s', Some t) \<Rightarrow> finish_task t s')"

definition register_complete :: "native_resource \<Rightarrow> int \<Rightarrow> resource_manager \<Rightarrow> resource_manager" where
  "register_complete res now s = (case register res now s of (s', ts) \<Rightarrow> finish_tasks ts s')"

text \<open>The ids \<open>cleanup\<close> was called for, in the order of the calls.\<close>

fun cleanup_calls :: "rm_effect list \<Rightarrow> string list" where
  "cleanup_calls [] = []"
| "cleanup_calls (Cleanup_called i # es) = i # cleanup_calls es"
| "cleanup_calls (e # es) = cleanup_calls es"

text \<open>
  A manager with \<open>maxResources = 4\<close> in which \<open>r1\<close>, ..., \<open>r4\<close> were registered at times
  1, ..., 4, and one resource whose \<open>cleanup\<close> rejects.
\<close>

definition example_resource :: "string \<Rightarrow> native_resource" where
  "example_resource i = \<lparr>id_r = i, type_r = ''buffer'', cleanup = Fulfilled (), getMemoryUsage = None\<rparr>"

definition four_tracked :: resource_manager where
  "four_tracked =
     fst (register (example_resource ''r4'') 4
       (fst (register (example_resource ''r3'') 3
         (fst (register (example_resource ''r2'') 2
           (fst (register (example_resource ''r1'') 1
             (new_resource_manager None (Some 4)))))))))"

definition failing_resource :: native_resource where
  "failing_resource = \<lparr>id_r = ''f'', type_r = ''socket'', cleanup = Rejected ''EIO'', getMemoryUsage = None\<rparr>"

definition one_failing :: resource_manager where
  "one_failing = fst (register failing_resource 1 (new_resource_manager None None))"

text \<open>A manager with \<open>maxResources = 2\<close> after three registrations.\<close>

definition three_tracked_cap2 :: resource_manager where
  "three_tracked_cap2 =
     fst (register (example_resource ''r3'') 3
       (fst (register (example_resource ''r2'') 2
         (fst (register (example_resource ''r1'') 1
           (new_resource_manager None (Some 2)))))))"

section \<open>Verified properties\<close>

subsection \<open>TimerManager: helper lemmas\<close>


lemma timers_clearTimer: "timers (snd (clearTimer i s)) = AList.delete i (timers s)"
  by (auto simp: clearTimer_def delete_notin_dom map_of_eq_None_iff split: option.splits)

lemma invoked_clearTimer: "invoked (snd (clearTimer i s)) = invoked s"
  by (simp add: clearTimer_def split: option.splits)

lemma console_clearTimer: "console (snd (clearTimer i s)) = console s"
  by (simp add: clearTimer_def split: option.splits)

lemma native_clearTimer:
  "native (snd (clearTimer i s)) =
     (case map_of (timers s) i of None \<Rightarrow> native s | Some h \<Rightarrow> (native s)(timer h := None))"
  by (simp add: clearTimer_def split: option.splits)

lemma map_of_delete_same: "map_of (AList.delete k al) k = None"
  by (simp add: delete_conv)

lemma fire_dead: "native s t = None \<Longrightarrow> fire t env s = s"
  by (simp add: fire_def)

lemma fires_dead: "native s t = None \<Longrightarrow> fires t envs s = s"
  by (induction envs) (simp_all add: fire_dead)

lemma fires_append: "fires t (xs @ ys) s = fires t ys (fires t xs s)"
  by (induction xs arbitrary: s) simp_all

lemma fire_counting:
  assumes "map_of (timers s) i = Some h" and "native s (timer h) = Some (Interval, i)"
    and "maxExecutions h = Some (int N)" and "ttlMs h = None"
    and "memoryPressureLimit h = None" and "\<not> streamCompleted h"
    and "executionCount h < N"
  shows "invoked (fire (timer h) env s) = invoked s @ [i]"
    and "Suc (executionCount h) = N \<Longrightarrow>
           map_of (timers (fire (timer h) env s)) i = None \<and> native (fire (timer h) env s) (timer h) = None"
    and "Suc (executionCount h) \<noteq> N \<Longrightarrow>
           map_of (timers (fire (timer h) env s)) i
             = Some (h\<lparr>lastExecuted := Some (now_exec env), executionCount := Suc (executionCount h)\<rparr>)
           \<and> native (fire (timer h) env s) (timer h) = Some (Interval, i)"
  using assms
  by (auto simp: fire_def interval_wrappedCallback_def shouldTerminateTimer_def Let_def
      timers_clearTimer invoked_clearTimer native_clearTimer update_conv' map_of_delete_same
      split: callback_outcome.splits)

lemma fires_counting:
  assumes "map_of (timers s) i = Some h" and "native s (timer h) = Some (Interval, i)"
    and "maxExecutions h = Some (int N)" and "ttlMs h = None"
    and "memoryPressureLimit h = None" and "\<not> streamCompleted h"
    and "executionCount h + length envs \<le> N" and "executionCount h < N"
  shows "invoked (fires (timer h) envs s) = invoked s @ replicate (length envs) i
       \<and> (executionCount h + length envs = N \<longrightarrow>
            map_of (timers (fires (timer h) envs s)) i = None
             \<and> native (fires (timer h) envs s) (timer h) = None)
       \<and> (executionCount h + length envs \<noteq> N \<longrightarrow>
            (\<exists>h'. map_of (timers (fires (timer h) envs s)) i = Some h'
                  \<and> executionCount h' = executionCount h + length envs)
             \<and> native (fires (timer h) envs s) (timer h) = Some (Interval, i))"
  using assms
proof (induction envs arbitrary: s h)
  case Nil
  then show ?case by simp
next
  case (Cons env envs)
  let ?s = "fire (timer h) env s"
  let ?h = "h\<lparr>lastExecuted := Some (now_exec env), executionCount := Suc (executionCount h)\<rparr>"
  have inv: "invoked ?s = invoked s @ [i]"
    using fire_counting(1)[OF Cons.prems(1-6) Cons.prems(8)] .
  show ?case
  proof (cases "Suc (executionCount h) = N")
    case True
    then have len: "envs = []" using Cons.prems(7) by (cases envs) simp_all
    from fire_counting(2)[OF Cons.prems(1-6) Cons.prems(8) True]
    show ?thesis using True len inv by simp
  next
    case False
    from fire_counting(3)[OF Cons.prems(1-6) Cons.prems(8) False, of env]
    have m: "map_of (timers ?s) i = Some ?h" and n: "native ?s (timer ?h) = Some (Interval, i)"
      by simp_all
    have "executionCount ?h + length envs \<le> N" and "executionCount ?h < N"
      using Cons.prems False by simp_all
    from Cons.IH[OF m n _ _ _ _ this] Cons.prems
    show ?thesis using inv by (simp add: replicate_app_Cons_same)
  qed
qed

lemma setInterval_installs:
  assumes "\<not> isShuttingDown s0" and "setInterval dl name options now s0 = (i, s)"
  shows "map_of (timers s) i =
           Some \<lparr>id_t = i, type_t = Interval, timer = nextNative s0, delay = dl, created = now,
                 lastExecuted = None, executionCount = 0,
                 maxExecutions = (case options of None \<Rightarrow> None | Some opts \<Rightarrow> opt_maxExecutions opts),
                 ttlMs = (case options of None \<Rightarrow> None | Some opts \<Rightarrow> opt_ttlMs opts),
                 memoryPressureLimit =
                   (case options of None \<Rightarrow> None | Some opts \<Rightarrow> opt_memoryPressureLimit opts),
                 streamCompleted = False\<rparr>"
    and "native s (nextNative s0) = Some (Interval, i)"
    and "invoked s = invoked s0"
  using assms
  by (auto simp: setInterval_def Let_def update_conv' clearTimer_def
      split: option.splits if_splits prod.splits)

lemma pre_check:
  assumes "map_of (timers s) i = Some h"
    and "shouldTerminateTimer h (now_before env) (pressure_before env)"
  shows "invoked (interval_wrappedCallback i env s) = invoked s
       \<and> map_of (timers (interval_wrappedCallback i env s)) i = None"
  using assms
  by (simp add: interval_wrappedCallback_def timers_clearTimer invoked_clearTimer map_of_delete_same)

lemma post_check:
  assumes "map_of (timers s) i = Some h"
    and "\<not> shouldTerminateTimer h (now_before env) (pressure_before env)"
    and "shouldTerminateTimer (h\<lparr>lastExecuted := Some (now_exec env),
            executionCount := executionCount h + 1\<rparr>) (now_after env) (pressure_after env)"
  shows "invoked (interval_wrappedCallback i env s) = invoked s @ [i]
       \<and> map_of (timers (interval_wrappedCallback i env s)) i = None"
  using assms
  by (simp add: interval_wrappedCallback_def timers_clearTimer invoked_clearTimer
      map_of_delete_same Let_def split: callback_outcome.splits)

text \<open>
  Claim C3. For every \<open>N \<ge> 1\<close>, an interval registered with \<open>maxExecutions = N\<close> (and no
  other lifecycle option) runs its callback exactly \<open>N\<close> times, whatever the clock and
  pressure readings and whether or not the callback throws: after \<open>k < N\<close> firings the
  handle is in the registry with \<open>executionCount = k\<close>, the \<open>N\<close>-th firing removes it and
  clears its native timer in that same firing, and any further firing changes nothing.
  The termination predicate is evaluated before the callback (when it holds, the handle is
  removed and the callback is not invoked) and again after it (when it holds then, the
  handle is removed right after the invocation).
\<close>

theorem maxExecutions_runs_exactly_N:
  assumes "1 \<le> N" and "\<not> isShuttingDown s0"
    and "setInterval dl name
           (Some \<lparr>opt_maxExecutions = Some (int N), opt_ttlMs = None,
                  opt_memoryPressureLimit = None\<rparr>) now s0 = (i, s)"
    and "length envs = N"
  shows "(\<forall>k<N. (\<exists>h. map_of (timers (fires (nextNative s0) (take k envs) s)) i = Some h
                    \<and> executionCount h = k)
              \<and> invoked (fires (nextNative s0) (take k envs) s) = invoked s0 @ replicate k i)
       \<and> invoked (fires (nextNative s0) envs s) = invoked s0 @ replicate N i
       \<and> map_of (timers (fires (nextNative s0) envs s)) i = None
       \<and> native (fires (nextNative s0) envs s) (nextNative s0) = None
       \<and> (\<forall>more. fires (nextNative s0) (envs @ more) s = fires (nextNative s0) envs s)
       \<and> (\<forall>s' j h env. map_of (timers s') j = Some h
             \<and> shouldTerminateTimer h (now_before env) (pressure_before env)
            \<longrightarrow> invoked (interval_wrappedCallback j env s') = invoked s'
              \<and> map_of (timers (interval_wrappedCallback j env s')) j = None)
       \<and> (\<forall>s' j h env. map_of (timers s') j = Some h
             \<and> \<not> shouldTerminateTimer h (now_before env) (pressure_before env)
             \<and> shouldTerminateTimer (h\<lparr>lastExecuted := Some (now_exec env),
                   executionCount := executionCount h + 1\<rparr>) (now_after env) (pressure_after env)
            \<longrightarrow> invoked (interval_wrappedCallback j env s') = invoked s' @ [j]
              \<and> map_of (timers (interval_wrappedCallback j env s')) j = None)"
proof -
  let ?t = "nextNative s0"
  let ?h = "\<lparr>id_t = i, type_t = Interval, timer = ?t, delay = dl, created = now,
             lastExecuted = None, executionCount = 0, maxExecutions = Some (int N),
             ttlMs = None, memoryPressureLimit = None, streamCompleted = False\<rparr>"
  have m: "map_of (timers s) i = Some ?h"
    using setInterval_installs(1)[OF assms(2,3)] by simp
  have n: "native s (timer ?h) = Some (Interval, i)"
    using setInterval_installs(2)[OF assms(2,3)] by simp
  have inv0: "invoked s = invoked s0"
    using setInterval_installs(3)[OF assms(2,3)] .
  have run: "executionCount ?h + length es \<le> N \<Longrightarrow>
        invoked (fires ?t es s) = invoked s @ replicate (length es) i
       \<and> (length es = N \<longrightarrow>
            map_of (timers (fires ?t es s)) i = None \<and> native (fires ?t es s) ?t = None)
       \<and> (length es \<noteq> N \<longrightarrow>
            (\<exists>h'. map_of (timers (fires ?t es s)) i = Some h' \<and> executionCount h' = length es)
             \<and> native (fires ?t es s) ?t = Some (Interval, i))" for es
    using fires_counting[OF m n, of N es] assms(1) by simp
  have early: "(\<exists>h. map_of (timers (fires ?t (take k envs) s)) i = Some h \<and> executionCount h = k)
              \<and> invoked (fires ?t (take k envs) s) = invoked s0 @ replicate k i" if "k < N" for k
    using run[of "take k envs"] that assms(4) inv0 by (simp add: min_def)
  have full: "invoked (fires ?t envs s) = invoked s0 @ replicate N i
       \<and> map_of (timers (fires ?t envs s)) i = None \<and> native (fires ?t envs s) ?t = None"
    using run[of envs] assms(4) inv0 by simp
  have after: "fires ?t (envs @ more) s = fires ?t envs s" for more
    using full by (simp add: fires_append fires_dead)
  show ?thesis
    using early full after pre_check post_check by (simp (no_asm_simp))
qed


theorem maxExecutions_runs_exactly_N_witness:
  "invoked (fires 0 [tick_at 10 Returns, tick_at 20 (Throws ''boom'')]
      (snd (setInterval 10 (Some ''a'')
         (Some \<lparr>opt_maxExecutions = Some 2, opt_ttlMs = None, opt_memoryPressureLimit = None\<rparr>)
         0 new_timer_manager))) = [''a'', ''a'']
   \<and> map_of (timers (fires 0 [tick_at 10 Returns, tick_at 20 (Throws ''boom'')]
      (snd (setInterval 10 (Some ''a'')
         (Some \<lparr>opt_maxExecutions = Some 2, opt_ttlMs = None, opt_memoryPressureLimit = None\<rparr>)
         0 new_timer_manager)))) ''a'' = None"
proof -
  let ?opts = "Some \<lparr>opt_maxExecutions = Some (int 2), opt_ttlMs = None, opt_memoryPressureLimit = None\<rparr>"
  let ?s = "snd (setInterval 10 (Some ''a'') ?opts 0 new_timer_manager)"
  have h1: "(1::nat) \<le> 2" by simp
  have h2: "\<not> isShuttingDown new_timer_manager" by (simp add: new_timer_manager_def)
  have h3: "setInterval 10 (Some ''a'') ?opts 0 new_timer_manager = (''a'', ?s)"
    by (simp add: setInterval_def new_timer_manager_def)
  have h4: "length [tick_at 10 Returns, tick_at 20 (Throws ''boom'')] = 2" by simp
  have n0: "nextNative new_timer_manager = 0" by (simp add: new_timer_manager_def)
  note T = maxExecutions_runs_exactly_N[OF h1 h2 h3 h4]
  have a: "invoked (fires 0 [tick_at 10 Returns, tick_at 20 (Throws ''boom'')] ?s) = [''a'', ''a'']"
    using T[THEN conjunct2, THEN conjunct1]
    by (simp add: n0) (simp add: new_timer_manager_def numeral_2_eq_2)
  have b: "map_of (timers (fires 0 [tick_at 10 Returns, tick_at 20 (Throws ''boom'')] ?s)) ''a'' = None"
    using T[THEN conjunct2, THEN conjunct2, THEN conjunct1] by (simp add: n0)
  show ?thesis using a b by simp
qed

subsection \<open>TimerManager: a throwing callback, and the time-to-live\<close>

text \<open>
  Claim C8 as stated fails on the log line. \<open>console.error\<close> is given the id and the
  error only: a callback that throws on its first run and one that throws on its second
  run leave the same line, although the execution counts differ.
\<close>

theorem callback_error_log_counterexample:
  "console (fire 0 (tick_at 10 (Throws ''boom''))
      (snd (setInterval 10 (Some ''a'') None 0 new_timer_manager)))
     = [Error_callback ''a'' ''boom'']
   \<and> map_option executionCount (map_of (timers (fire 0 (tick_at 10 (Throws ''boom''))
      (snd (setInterval 10 (Some ''a'') None 0 new_timer_manager)))) ''a'') = Some 1
   \<and> console (fire 0 (tick_at 20 (Throws ''boom'')) (fire 0 (tick_at 10 Returns)
      (snd (setInterval 10 (Some ''a'') None 0 new_timer_manager))))
     = [Error_callback ''a'' ''boom'']
   \<and> map_option executionCount (map_of (timers (fire 0 (tick_at 20 (Throws ''boom''))
      (fire 0 (tick_at 10 Returns)
      (snd (setInterval 10 (Some ''a'') None 0 new_timer_manager))))) ''a'') = Some 2"
  by (simp add: setInterval_def new_timer_manager_def fire_def interval_wrappedCallback_def
      shouldTerminateTimer_def tick_at_def Let_def)

text \<open>
  Claim C8, amended. When the callback of an interval throws, the exception is caught and
  logged with the timer id and the error (not the execution count). The throw changes
  nothing else: registry and native timers are as after a normal return, so the handle is
  removed only when the termination predicate holds after the callback; otherwise it stays
  registered and armed, and its next firing invokes the callback again.
\<close>

theorem callback_throw_survives:
  assumes "native s t = Some (Interval, i)" and "map_of (timers s) i = Some h"
    and "\<not> shouldTerminateTimer h (now_before env) (pressure_before env)"
    and "outcome env = Throws e"
  shows "invoked (fire t env s) = invoked s @ [i]
     \<and> console (fire t env s) = console s @ [Error_callback i e] @
          (if shouldTerminateTimer (h\<lparr>lastExecuted := Some (now_exec env),
                 executionCount := executionCount h + 1\<rparr>) (now_after env) (pressure_after env)
           then [Log_auto_terminating i] else [])
     \<and> timers (fire t env s) = timers (fire t (env\<lparr>outcome := Returns\<rparr>) s)
     \<and> native (fire t env s) = native (fire t (env\<lparr>outcome := Returns\<rparr>) s)
     \<and> (\<not> shouldTerminateTimer (h\<lparr>lastExecuted := Some (now_exec env),
                 executionCount := executionCount h + 1\<rparr>) (now_after env) (pressure_after env)
          \<longrightarrow> map_of (timers (fire t env s)) i
                = Some (h\<lparr>lastExecuted := Some (now_exec env), executionCount := executionCount h + 1\<rparr>)
            \<and> native (fire t env s) t = Some (Interval, i)
            \<and> (\<forall>env2. \<not> shouldTerminateTimer (h\<lparr>lastExecuted := Some (now_exec env),
                     executionCount := executionCount h + 1\<rparr>) (now_before env2) (pressure_before env2)
                  \<longrightarrow> invoked (fire t env2 (fire t env s)) = invoked s @ [i, i]))"
  using assms
  by (simp add: fire_def interval_wrappedCallback_def Let_def timers_clearTimer
      invoked_clearTimer console_clearTimer native_clearTimer update_conv'
      split: callback_outcome.splits)

theorem callback_throw_survives_witness:
  "invoked (fire 0 (tick_at 20 Returns) (fire 0 (tick_at 10 (Throws ''boom''))
      (snd (setInterval 10 (Some ''a'') None 0 new_timer_manager)))) = [''a'', ''a'']
   \<and> console (fire 0 (tick_at 10 (Throws ''boom''))
      (snd (setInterval 10 (Some ''a'') None 0 new_timer_manager))) = [Error_callback ''a'' ''boom'']"
proof -
  let ?s = "snd (setInterval 10 (Some ''a'') None 0 new_timer_manager)"
  let ?h = "\<lparr>id_t = ''a'', type_t = Interval, timer = 0, delay = 10, created = 0,
             lastExecuted = None, executionCount = 0, maxExecutions = None,
             ttlMs = None, memoryPressureLimit = None, streamCompleted = False\<rparr>"
  have h1: "native ?s 0 = Some (Interval, ''a'')"
    by (simp add: setInterval_def new_timer_manager_def)
  have h2: "map_of (timers ?s) ''a'' = Some ?h"
    by (simp add: setInterval_def new_timer_manager_def)
  have h3: "\<not> shouldTerminateTimer ?h (now_before (tick_at 10 (Throws ''boom'')))
              (pressure_before (tick_at 10 (Throws ''boom'')))"
    by (simp add: shouldTerminateTimer_def)
  have h4: "outcome (tick_at 10 (Throws ''boom'')) = Throws ''boom''"
    by (simp add: tick_at_def)
  note T = callback_throw_survives[OF h1 h2 h3 h4]
  have c: "console (fire 0 (tick_at 10 (Throws ''boom'')) ?s) = [Error_callback ''a'' ''boom'']"
    using T[THEN conjunct2, THEN conjunct1]
    by (simp add: shouldTerminateTimer_def) (simp add: setInterval_def new_timer_manager_def)
  have "invoked (fire 0 (tick_at 20 Returns) (fire 0 (tick_at 10 (Throws ''boom'')) ?s))
          = invoked ?s @ [''a'', ''a'']"
    using T[THEN conjunct2, THEN conjunct2, THEN conjunct2, THEN conjunct2]
    by (simp add: shouldTerminateTimer_def)
  then show ?thesis using c by (simp add: setInterval_def new_timer_manager_def)
qed

lemma fire_ttl_alive:
  assumes "map_of (timers s) i = Some h" and "native s t = Some (Interval, i)"
    and "maxExecutions h = None" and "ttlMs h = Some T"
    and "memoryPressureLimit h = None" and "\<not> streamCompleted h"
    and "now_before env - created h < T" and "now_after env - created h < T"
  shows "\<exists>h'. map_of (timers (fire t env s)) i = Some h' \<and> maxExecutions h' = None
            \<and> ttlMs h' = Some T \<and> memoryPressureLimit h' = None \<and> \<not> streamCompleted h'
            \<and> created h' = created h \<and> timer h' = timer h"
    and "native (fire t env s) t = Some (Interval, i)"
  using assms
  by (auto simp: fire_def interval_wrappedCallback_def shouldTerminateTimer_def Let_def
      update_conv' split: callback_outcome.splits)

lemma fires_ttl_alive:
  assumes "map_of (timers s) i = Some h" and "native s t = Some (Interval, i)"
    and "maxExecutions h = None" and "ttlMs h = Some T"
    and "memoryPressureLimit h = None" and "\<not> streamCompleted h"
    and "\<forall>env\<in>set envs. now_before env - created h < T \<and> now_after env - created h < T"
  shows "(\<exists>h'. map_of (timers (fires t envs s)) i = Some h' \<and> maxExecutions h' = None
            \<and> ttlMs h' = Some T \<and> memoryPressureLimit h' = None \<and> \<not> streamCompleted h'
            \<and> created h' = created h \<and> timer h' = timer h)
       \<and> native (fires t envs s) t = Some (Interval, i)"
  using assms
proof (induction envs arbitrary: s h)
  case Nil
  then show ?case by simp
next
  case (Cons env envs)
  have b: "now_before env - created h < T" and a: "now_after env - created h < T"
    using Cons.prems(7) by simp_all
  from fire_ttl_alive(1)[OF Cons.prems(1-6) b a]
  obtain h' where h': "map_of (timers (fire t env s)) i = Some h'" "maxExecutions h' = None"
    "ttlMs h' = Some T" "memoryPressureLimit h' = None" "\<not> streamCompleted h'"
    "created h' = created h" "timer h' = timer h"
    by blast
  have n: "native (fire t env s) t = Some (Interval, i)"
    using fire_ttl_alive(2)[OF Cons.prems(1-6) b a] .
  have rest: "\<forall>env\<in>set envs. now_before env - created h' < T \<and> now_after env - created h' < T"
    using Cons.prems(7) h'(6) by simp
  from Cons.IH[OF h'(1) n h'(2-5) rest] h'(6,7)
  show ?case by simp
qed

lemma fire_ttl_expired:
  assumes "map_of (timers s) i = Some h" and "native s (timer h) = Some (Interval, i)"
    and "ttlMs h = Some T" and "0 < T"
    and "T \<le> now_before env - created h \<or> T \<le> now_after env - created h"
  shows "map_of (timers (fire (timer h) env s)) i = None
       \<and> native (fire (timer h) env s) (timer h) = None"
  using assms
  by (auto simp: fire_def interval_wrappedCallback_def shouldTerminateTimer_def Let_def
      timers_clearTimer native_clearTimer update_conv' map_of_delete_same
      split: callback_outcome.splits option.splits)

text \<open>
  Claim C9 as stated fails at \<open>T = 0\<close>: \<open>ttlMs = 0\<close> is falsy, the TTL guard is skipped,
  and a firing 1000 ms after creation runs the callback and leaves the timer registered.
\<close>

theorem ttl_zero_counterexample:
  "map_of (timers (fire 0 (tick_at 1000 Returns)
      (snd (setInterval 10 (Some ''a'')
         (Some \<lparr>opt_maxExecutions = None, opt_ttlMs = Some 0, opt_memoryPressureLimit = None\<rparr>)
         0 new_timer_manager)))) ''a''
   = Some \<lparr>id_t = ''a'', type_t = Interval, timer = 0, delay = 10, created = 0,
           lastExecuted = Some 1000, executionCount = 1, maxExecutions = None,
           ttlMs = Some 0, memoryPressureLimit = None, streamCompleted = False\<rparr>"
  by (simp add: setInterval_def new_timer_manager_def fire_def interval_wrappedCallback_def
      shouldTerminateTimer_def tick_at_def Let_def)

text \<open>
  Claim C9, amended to \<open>T > 0\<close>. An interval registered at time \<open>now\<close> with \<open>ttlMs = T\<close>
  and no other lifecycle option: the reason \<open>TTL expired\<close> is never reported before \<open>T\<close>
  milliseconds have elapsed since creation; as long as every clock reading of its firings
  is before \<open>now + T\<close> it stays registered; and the first firing with a reading at or after
  \<open>now + T\<close> (before or after the callback) removes it and clears its native timer.
\<close>

theorem ttl_termination:
  assumes "0 < T" and "\<not> isShuttingDown s0"
    and "setInterval dl name
           (Some \<lparr>opt_maxExecutions = None, opt_ttlMs = Some T,
                  opt_memoryPressureLimit = None\<rparr>) now s0 = (i, s)"
  shows "(\<forall>h now' p a b. ttlMs h = Some T \<and> getTerminationReason h now' p = TTL_expired a b
            \<longrightarrow> T \<le> now' - created h)
       \<and> (\<forall>envs. (\<forall>env\<in>set envs. now_before env - now < T \<and> now_after env - now < T)
            \<longrightarrow> map_of (timers (fires (nextNative s0) envs s)) i \<noteq> None
              \<and> (\<forall>env. T \<le> now_before env - now \<or> T \<le> now_after env - now
                   \<longrightarrow> map_of (timers (fires (nextNative s0) (envs @ [env]) s)) i = None
                     \<and> native (fires (nextNative s0) (envs @ [env]) s) (nextNative s0) = None))"
proof -
  let ?t = "nextNative s0"
  let ?h = "\<lparr>id_t = i, type_t = Interval, timer = ?t, delay = dl, created = now,
             lastExecuted = None, executionCount = 0, maxExecutions = None,
             ttlMs = Some T, memoryPressureLimit = None, streamCompleted = False\<rparr>"
  have m: "map_of (timers s) i = Some ?h"
    using setInterval_installs(1)[OF assms(2,3)] by simp
  have n: "native s ?t = Some (Interval, i)"
    using setInterval_installs(2)[OF assms(2,3)] .
  have reason: "T \<le> now' - created h"
    if "ttlMs h = Some T" and "getTerminationReason h now' p = TTL_expired a b" for h now' p a b
    using that by (auto simp: getTerminationReason_def split: if_splits option.splits)
  have alive: "(\<exists>h'. map_of (timers (fires ?t envs s)) i = Some h' \<and> maxExecutions h' = None
            \<and> ttlMs h' = Some T \<and> memoryPressureLimit h' = None \<and> \<not> streamCompleted h'
            \<and> created h' = now \<and> timer h' = ?t)
       \<and> native (fires ?t envs s) ?t = Some (Interval, i)"
    if "\<forall>env\<in>set envs. now_before env - now < T \<and> now_after env - now < T" for envs
    using fires_ttl_alive[OF m n, of T envs] that by simp
  have dead: "map_of (timers (fires ?t (envs @ [env]) s)) i = None
            \<and> native (fires ?t (envs @ [env]) s) ?t = None"
    if e: "\<forall>env\<in>set envs. now_before env - now < T \<and> now_after env - now < T"
      and l: "T \<le> now_before env - now \<or> T \<le> now_after env - now" for envs env
  proof -
    from alive[OF e] obtain h' where h': "map_of (timers (fires ?t envs s)) i = Some h'"
      "ttlMs h' = Some T" "created h' = now" "timer h' = ?t"
      and n': "native (fires ?t envs s) ?t = Some (Interval, i)"
      by blast
    from fire_ttl_expired[OF h'(1) _ h'(2) assms(1), of env] n' l h'(3,4)
    show ?thesis by (simp add: fires_append)
  qed
  show ?thesis
    using reason alive dead by (simp (no_asm_simp)) blast
qed

theorem ttl_termination_witness:
  "map_of (timers (fires 0 [tick_at 50 Returns, tick_at 99 Returns]
      (snd (setInterval 10 (Some ''a'')
         (Some \<lparr>opt_maxExecutions = None, opt_ttlMs = Some 100, opt_memoryPressureLimit = None\<rparr>)
         0 new_timer_manager)))) ''a'' \<noteq> None
   \<and> map_of (timers (fires 0 ([tick_at 50 Returns, tick_at 99 Returns] @ [tick_at 100 Returns])
      (snd (setInterval 10 (Some ''a'')
         (Some \<lparr>opt_maxExecutions = None, opt_ttlMs = Some 100, opt_memoryPressureLimit = None\<rparr>)
         0 new_timer_manager)))) ''a'' = None"
proof -
  let ?opts = "Some \<lparr>opt_maxExecutions = None, opt_ttlMs = Some 100, opt_memoryPressureLimit = None\<rparr>"
  let ?s = "snd (setInterval 10 (Some ''a'') ?opts 0 new_timer_manager)"
  let ?envs = "[tick_at 50 Returns, tick_at 99 Returns]"
  have h1: "(0::int) < 100" by simp
  have h2: "\<not> isShuttingDown new_timer_manager" by (simp add: new_timer_manager_def)
  have h3: "setInterval 10 (Some ''a'') ?opts 0 new_timer_manager = (''a'', ?s)"
    by (simp add: setInterval_def new_timer_manager_def)
  have n0: "nextNative new_timer_manager = 0" by (simp add: new_timer_manager_def)
  have before: "\<forall>env\<in>set ?envs. now_before env - 0 < 100 \<and> now_after env - 0 < 100"
    by (simp add: tick_at_def)
  have late: "100 \<le> now_before (tick_at 100 Returns) - 0 \<or> 100 \<le> now_after (tick_at 100 Returns) - 0"
    by (simp add: tick_at_def)
  note T = ttl_termination[OF h1 h2 h3, THEN conjunct2, THEN spec, THEN mp, OF before]
  have a: "map_of (timers (fires 0 ?envs ?s)) ''a'' \<noteq> None"
    using T[THEN conjunct1] by (simp add: n0)
  have b: "map_of (timers (fires 0 (?envs @ [tick_at 100 Returns]) ?s)) ''a'' = None"
    using T[THEN conjunct2, THEN spec, THEN mp, OF late, THEN conjunct1] by (simp add: n0)
  show ?thesis using a b by simp
qed

subsection \<open>TimerManager: the registry invariant, replacement and emergency cleanup\<close>

lemma registry_ok_console [simp]: "registry_ok (s\<lparr>console := c\<rparr>) = registry_ok s"
  by (simp add: registry_ok_def)

lemma registry_ok_invoked [simp]: "registry_ok (s\<lparr>invoked := c\<rparr>) = registry_ok s"
  by (simp add: registry_ok_def)

lemma registry_ok_nextId [simp]: "registry_ok (s\<lparr>nextId := c\<rparr>) = registry_ok s"
  by (simp add: registry_ok_def)

lemma registry_ok_isShuttingDown [simp]: "registry_ok (s\<lparr>isShuttingDown := c\<rparr>) = registry_ok s"
  by (simp add: registry_ok_def)

lemma registry_ok_new: "registry_ok new_timer_manager"
  by (simp add: registry_ok_def new_timer_manager_def)

lemma registry_okD:
  assumes "registry_ok s"
  shows "distinct (map fst (timers s))"
    and "map_of (timers s) k = Some h \<Longrightarrow> id_t h = k \<and> native s (timer h) = Some (type_t h, k)"
    and "native s t = Some (ty, k) \<Longrightarrow> t < nextNative s \<and> (\<exists>h. map_of (timers s) k = Some h \<and> timer h = t)"
  using assms unfolding registry_ok_def
  by (auto dest: map_of_SomeD)

lemma registry_okI:
  assumes "distinct (map fst (timers s))"
    and "\<And>k h. map_of (timers s) k = Some h \<Longrightarrow> id_t h = k \<and> native s (timer h) = Some (type_t h, k)"
    and "\<And>t ty k. native s t = Some (ty, k) \<Longrightarrow> t < nextNative s \<and> (\<exists>h. map_of (timers s) k = Some h \<and> timer h = t)"
  shows "registry_ok s"
  unfolding registry_ok_def using assms
  by (auto simp: map_of_eq_Some_iff)

lemma registry_ok_clearTimer:
  assumes "registry_ok s"
  shows "registry_ok (snd (clearTimer i s))"
proof (cases "map_of (timers s) i")
  case None
  then show ?thesis using assms by (simp add: clearTimer_def)
next
  case (Some h)
  let ?s = "s\<lparr>native := (native s)(timer h := None), timers := AList.delete i (timers s)\<rparr>"
  have eq: "snd (clearTimer i s) = ?s" using Some by (simp add: clearTimer_def)
  have "registry_ok ?s"
  proof (rule registry_okI)
    show "distinct (map fst (timers ?s))"
      using registry_okD(1)[OF assms] by (simp add: distinct_delete)
  next
    fix k h' assume "map_of (timers ?s) k = Some h'"
    then have k: "k \<noteq> i" and m: "map_of (timers s) k = Some h'"
      by (auto simp: delete_conv split: if_splits)
    from registry_okD(2)[OF assms m] registry_okD(2)[OF assms Some] k
    show "id_t h' = k \<and> native ?s (timer h') = Some (type_t h', k)"
      by auto
  next
    fix t ty k assume "native ?s t = Some (ty, k)"
    then have t: "t \<noteq> timer h" and n: "native s t = Some (ty, k)"
      by (auto split: if_splits)
    from registry_okD(3)[OF assms n] obtain h' where h': "t < nextNative s"
      "map_of (timers s) k = Some h'" "timer h' = t" by blast
    have "k \<noteq> i" using h' Some t by auto
    then show "t < nextNative ?s \<and> (\<exists>h. map_of (timers ?s) k = Some h \<and> timer h = t)"
      using h' by (simp add: delete_conv)
  qed
  then show ?thesis using eq by simp
qed

lemma nextNative_clearTimer [simp]: "nextNative (snd (clearTimer i s)) = nextNative s"
  by (simp add: clearTimer_def split: option.splits)

lemma map_of_clearTimer:
  "map_of (timers (snd (clearTimer i s))) k = (if k = i then None else map_of (timers s) k)"
  by (simp add: timers_clearTimer delete_conv)

text \<open>Arming a fresh native timer and storing a handle for it under an id that is free.\<close>

lemma registry_ok_install:
  assumes "registry_ok s" and "map_of (timers s) i = None"
    and "id_t h = i" and "timer h = nextNative s"
  shows "registry_ok (s\<lparr>native := (native s)(nextNative s \<mapsto> (type_t h, i)),
                         nextNative := nextNative s + 1,
                         timers := AList.update i h (timers s)\<rparr>)"
    (is "registry_ok ?s")
proof (rule registry_okI)
  show "distinct (map fst (timers ?s))"
    using registry_okD(1)[OF assms(1)] by (simp add: distinct_update)
next
  fix k h' assume a: "map_of (timers ?s) k = Some h'"
  show "id_t h' = k \<and> native ?s (timer h') = Some (type_t h', k)"
  proof (cases "k = i")
    case True
    then show ?thesis using a assms(3,4) by (simp add: update_conv')
  next
    case False
    then have m: "map_of (timers s) k = Some h'" using a by (simp add: update_conv')
    from registry_okD(2)[OF assms(1) m] registry_okD(3)[OF assms(1), of "timer h'"]
    show ?thesis by auto
  qed
next
  fix t ty k assume a: "native ?s t = Some (ty, k)"
  show "t < nextNative ?s \<and> (\<exists>h. map_of (timers ?s) k = Some h \<and> timer h = t)"
  proof (cases "t = nextNative s")
    case True
    then show ?thesis using a assms(4) by (simp add: update_conv')
  next
    case False
    then have n: "native s t = Some (ty, k)" using a by simp
    from registry_okD(3)[OF assms(1) n] obtain h' where h': "t < nextNative s"
      "map_of (timers s) k = Some h'" "timer h' = t" by blast
    then have "k \<noteq> i" using assms(2) by auto
    then show ?thesis using h' by (simp add: update_conv')
  qed
qed

lemma registry_ok_replace:
  assumes "registry_ok s" and "id_t h = i"
    and "timer h = nextNative s" and "type_t h = ty"
    and "s2 = (if map_of (timers s) i \<noteq> None then snd (clearTimer i s) else s)"
  shows "registry_ok (s2\<lparr>native := (native s2)(nextNative s2 \<mapsto> (ty, i)),
                          nextNative := nextNative s2 + 1,
                          timers := AList.update i h (timers s2)\<rparr>)"
proof -
  have ok: "registry_ok s2" using assms(1,5) by (simp add: registry_ok_clearTimer)
  have free: "map_of (timers s2) i = None" using assms(5) by (auto simp: map_of_clearTimer)
  have t: "timer h = nextNative s2" using assms(3,5) by simp
  show ?thesis using registry_ok_install[OF ok free assms(2) t] assms(4) by simp
qed

lemma registry_ok_setInterval:
  assumes "registry_ok s"
  shows "registry_ok (snd (setInterval dl name options now s))"
proof (cases "isShuttingDown s")
  case True
  then show ?thesis using assms by (simp add: setInterval_def)
next
  case False
  obtain i s1 where is1: "(case name of
         None \<Rightarrow> (''interval_'' @ string_of_nat (nextId s), s\<lparr>nextId := nextId s + 1\<rparr>)
       | Some n \<Rightarrow> if n = '''' then (''interval_'' @ string_of_nat (nextId s), s\<lparr>nextId := nextId s + 1\<rparr>)
                   else (n, s)) = (i, s1)"
    by (cases "case name of
         None \<Rightarrow> (''interval_'' @ string_of_nat (nextId s), s\<lparr>nextId := nextId s + 1\<rparr>)
       | Some n \<Rightarrow> if n = '''' then (''interval_'' @ string_of_nat (nextId s), s\<lparr>nextId := nextId s + 1\<rparr>)
                   else (n, s)") auto
  then have ok1: "registry_ok s1" using assms by (auto split: option.splits if_splits)
  show ?thesis
    using False is1 registry_ok_replace[OF ok1 _ _ _ refl, where i = i and ty = Interval]
    by (simp add: setInterval_def Let_def)
qed

lemma registry_ok_setTimeout:
  assumes "registry_ok s"
  shows "registry_ok (snd (setTimeout dl name now s))"
proof (cases "isShuttingDown s")
  case True
  then show ?thesis using assms by (simp add: setTimeout_def)
next
  case False
  obtain i s1 where is1: "(case name of
         None \<Rightarrow> (''timeout_'' @ string_of_nat (nextId s), s\<lparr>nextId := nextId s + 1\<rparr>)
       | Some n \<Rightarrow> if n = '''' then (''timeout_'' @ string_of_nat (nextId s), s\<lparr>nextId := nextId s + 1\<rparr>)
                   else (n, s)) = (i, s1)"
    by (cases "case name of
         None \<Rightarrow> (''timeout_'' @ string_of_nat (nextId s), s\<lparr>nextId := nextId s + 1\<rparr>)
       | Some n \<Rightarrow> if n = '''' then (''timeout_'' @ string_of_nat (nextId s), s\<lparr>nextId := nextId s + 1\<rparr>)
                   else (n, s)") auto
  then have ok1: "registry_ok s1" using assms by (auto split: option.splits if_splits)
  show ?thesis
    using False is1 registry_ok_replace[OF ok1 _ _ _ refl, where i = i and ty = Timeout]
    by (simp add: setTimeout_def Let_def)
qed

lemma registry_ok_update_fields:
  assumes "registry_ok s" and "map_of (timers s) i = Some h"
    and "id_t h' = id_t h" and "type_t h' = type_t h" and "timer h' = timer h"
  shows "registry_ok (s\<lparr>timers := AList.update i h' (timers s)\<rparr>)" (is "registry_ok ?s")
proof (rule registry_okI)
  show "distinct (map fst (timers ?s))"
    using registry_okD(1)[OF assms(1)] by (simp add: distinct_update)
next
  fix k g assume a: "map_of (timers ?s) k = Some g"
  show "id_t g = k \<and> native ?s (timer g) = Some (type_t g, k)"
  proof (cases "k = i")
    case True
    then show ?thesis using a assms(3-5) registry_okD(2)[OF assms(1,2)] by (simp add: update_conv')
  next
    case False
    then show ?thesis using a registry_okD(2)[OF assms(1), of k g] by (simp add: update_conv')
  qed
next
  fix t ty k assume "native ?s t = Some (ty, k)"
  then have n: "native s t = Some (ty, k)" by simp
  from registry_okD(3)[OF assms(1) n] obtain g where g: "t < nextNative s"
    "map_of (timers s) k = Some g" "timer g = t" by blast
  show "t < nextNative ?s \<and> (\<exists>h. map_of (timers ?s) k = Some h \<and> timer h = t)"
    using g assms(2,5) by (cases "k = i") (auto simp: update_conv')
qed

lemma registry_ok_interval_wrappedCallback:
  assumes "registry_ok s"
  shows "registry_ok (interval_wrappedCallback i env s)"
proof (cases "map_of (timers s) i")
  case None
  then show ?thesis using assms by (simp add: interval_wrappedCallback_def)
next
  case (Some h)
  let ?h = "h\<lparr>lastExecuted := Some (now_exec env), executionCount := executionCount h + 1\<rparr>"
  have up: "registry_ok (s\<lparr>timers := AList.update i ?h (timers s)\<rparr>)"
    by (rule registry_ok_update_fields[OF assms Some]) simp_all
  have up2: "registry_ok (s\<lparr>timers := AList.update i ?h (timers s), invoked := inv, console := c\<rparr>)"
    for inv c
    using up by simp
  have up3: "registry_ok (s\<lparr>timers := AList.update i ?h (timers s), invoked := inv\<rparr>)" for inv
    using up by simp
  show ?thesis
    using Some assms up2 up3
    by (auto simp: interval_wrappedCallback_def Let_def intro!: registry_ok_clearTimer
        split: callback_outcome.splits)
qed

lemma registry_ok_fire:
  assumes "registry_ok s"
  shows "registry_ok (fire t env s)"
proof (cases "native s t")
  case None
  then show ?thesis using assms by (simp add: fire_def)
next
  case (Some p)
  obtain ty i where p: "p = (ty, i)" by (cases p)
  from registry_okD(3)[OF assms Some[unfolded p]] obtain h where
    h: "map_of (timers s) i = Some h" "timer h = t" by blast
  show ?thesis
  proof (cases ty)
    case Interval
    then show ?thesis using Some p assms by (simp add: fire_def registry_ok_interval_wrappedCallback)
  next
    case Timeout
    have c: "registry_ok (snd (clearTimer i s))" by (rule registry_ok_clearTimer[OF assms])
    have eq: "snd (clearTimer i s) = s\<lparr>native := (native s)(t := None), timers := AList.delete i (timers s)\<rparr>"
      using h by (simp add: clearTimer_def)
    have "registry_ok (s\<lparr>native := (native s)(t := None), timers := AList.delete i (timers s),
                           invoked := inv, console := c\<rparr>)" for inv c
      using c unfolding eq by simp
    moreover have "registry_ok (s\<lparr>native := (native s)(t := None), timers := AList.delete i (timers s),
                           invoked := inv\<rparr>)" for inv
      using c unfolding eq by simp
    ultimately show ?thesis
      using Some p Timeout h
      by (simp add: fire_def timeout_wrappedCallback_def Let_def split: callback_outcome.splits)
  qed
qed

lemma fold_clear_native:
  "fold (\<lambda>(i, handle) m. m(timer handle := None)) xs m t
     = (if t \<in> (timer \<circ> snd) ` set xs then None else m t)"
  by (induction xs arbitrary: m) (auto split: prod.splits)

lemma registry_ok_clearAll:
  assumes "registry_ok s"
  shows "registry_ok (clearAll reason s)"
proof -
  have "native s t = Some (ty, k) \<Longrightarrow> t \<in> (timer \<circ> snd) ` set (timers s)" for t ty k
    using registry_okD(3)[OF assms, of t ty k] by (force dest: map_of_SomeD)
  then show ?thesis
    by (auto simp: clearAll_def Let_def registry_ok_def fold_clear_native)
qed

lemma registry_ok_emergency_clear:
  "registry_ok s \<Longrightarrow> registry_ok (emergency_clear msg hs s)"
  by (induction hs arbitrary: s) (simp_all add: registry_ok_clearTimer)

lemma registry_ok_clear_each:
  "registry_ok s \<Longrightarrow> registry_ok (clear_each ids s)"
  by (induction ids arbitrary: s) (simp_all add: registry_ok_clearTimer)

lemma registry_ok_emergencyCleanup:
  "registry_ok s \<Longrightarrow> registry_ok (emergencyCleanup now s)"
  by (simp add: emergencyCleanup_def Let_def registry_ok_emergency_clear registry_ok_clear_each)

lemma registry_ok_markStreamCompleted:
  "registry_ok s \<Longrightarrow> registry_ok (snd (markStreamCompleted i s))"
  by (auto simp: markStreamCompleted_def intro!: registry_ok_update_fields split: option.splits)

lemma registry_ok_updateTimerLifecycle:
  "registry_ok s \<Longrightarrow> registry_ok (snd (updateTimerLifecycle i updates s))"
  by (auto simp: updateTimerLifecycle_def Let_def intro!: registry_ok_update_fields
      split: option.splits)

lemma registry_ok_apply_op: "registry_ok s \<Longrightarrow> registry_ok (apply_op op s)"
  by (cases op)
    (simp_all add: registry_ok_setInterval registry_ok_setTimeout registry_ok_clearTimer
      registry_ok_clearAll registry_ok_fire registry_ok_markStreamCompleted
      registry_ok_updateTimerLifecycle registry_ok_emergencyCleanup
      prepareShutdown_def forced_shutdown_def)

lemma registry_ok_run_ops: "registry_ok s \<Longrightarrow> registry_ok (run_ops ops s)"
  by (induction ops arbitrary: s) (simp_all add: registry_ok_apply_op)

lemma registry_ok_reachable: "registry_ok (run_ops ops new_timer_manager)"
  by (simp add: registry_ok_run_ops registry_ok_new)

lemma filter_key_le_one:
  "distinct (map fst al) \<Longrightarrow> length (filter (\<lambda>(k', h). k' = k) al) \<le> 1"
  by (induction al) (auto simp: filter_empty_conv image_iff)

lemma filter_key_one:
  "distinct (map fst al) \<Longrightarrow> map_of al k = Some v \<Longrightarrow> length (filter (\<lambda>(k', h). k' = k) al) = 1"
  by (induction al) (auto simp: filter_empty_conv image_iff dest: map_of_SomeD split: if_splits)

lemma setInterval_native:
  assumes "\<not> isShuttingDown s" and "setInterval dl name options now s = (i, s')"
  shows "native s' = (case map_of (timers s) i of
                        None \<Rightarrow> native s
                      | Some h \<Rightarrow> (native s)(timer h := None))(nextNative s \<mapsto> (Interval, i))"
  using assms
  by (auto simp: setInterval_def Let_def clearTimer_def split: option.splits if_splits prod.splits)

lemma setInterval_named:
  assumes "\<not> isShuttingDown s" and "i \<noteq> ''''" and "setInterval dl (Some i) options now s = (r, s')"
  shows "r = i"
  using assms by (auto simp: setInterval_def Let_def split: prod.splits)

text \<open>
  Claim C7. In every state the manager can reach, each id has at most one handle and at
  most one armed native timer. Registering an interval under an id that names a registered
  timer (while the manager accepts registrations) clears the old native timer first and
  then arms a fresh one: afterwards exactly one handle is stored under the id, the old
  native timer is not armed, so a firing of it changes nothing, and the only native timer
  armed for the id is the new one.
\<close>

theorem one_task_per_id:
  assumes "s = run_ops ops new_timer_manager"
    and "\<not> isShuttingDown s"
    and "map_of (timers s) i = Some old" and "i \<noteq> ''''"
    and "setInterval dl (Some i) options now s = (r, s')"
  shows "r = i
     \<and> length (filter (\<lambda>(k, h). k = i) (timers s')) = 1
     \<and> native (snd (clearTimer i s)) (timer old) = None
     \<and> native s' (timer old) = None
     \<and> (\<forall>env. fire (timer old) env s' = s')
     \<and> (\<exists>new. map_of (timers s') i = Some new \<and> timer new = nextNative s
            \<and> timer new \<noteq> timer old \<and> executionCount new = 0 \<and> created new = now
            \<and> native s' (timer new) = Some (Interval, i)
            \<and> (\<forall>t ty. native s' t = Some (ty, i) \<longrightarrow> t = timer new))
     \<and> (\<forall>ops' k. length (filter (\<lambda>(k', h). k' = k) (timers (run_ops ops' new_timer_manager))) \<le> 1
            \<and> (\<forall>t1 t2 ty1 ty2. native (run_ops ops' new_timer_manager) t1 = Some (ty1, k)
                  \<and> native (run_ops ops' new_timer_manager) t2 = Some (ty2, k) \<longrightarrow> t1 = t2))"
proof -
  have ok: "registry_ok s" using assms(1) by (simp add: registry_ok_reachable)
  have r: "r = i" by (rule setInterval_named[OF assms(2,4,5)])
  have ok': "registry_ok s'"
    using registry_ok_setInterval[OF ok, of dl "Some i" options now] assms(5) by simp
  let ?new = "\<lparr>id_t = i, type_t = Interval, timer = nextNative s, delay = dl, created = now,
               lastExecuted = None, executionCount = 0,
               maxExecutions = (case options of None \<Rightarrow> None | Some opts \<Rightarrow> opt_maxExecutions opts),
               ttlMs = (case options of None \<Rightarrow> None | Some opts \<Rightarrow> opt_ttlMs opts),
               memoryPressureLimit =
                 (case options of None \<Rightarrow> None | Some opts \<Rightarrow> opt_memoryPressureLimit opts),
               streamCompleted = False\<rparr>"
  have m: "map_of (timers s') i = Some ?new"
    using setInterval_installs(1)[OF assms(2) assms(5)[unfolded r]] .
  have old_lt: "timer old < nextNative s"
    using registry_okD(2)[OF ok assms(3)] registry_okD(3)[OF ok, of "timer old"] by auto
  have nat': "native s' = ((native s)(timer old := None))(nextNative s \<mapsto> (Interval, i))"
    using setInterval_native[OF assms(2) assms(5)[unfolded r]] assms(3) by simp
  have one: "length (filter (\<lambda>(k, h). k = i) (timers s')) = 1"
    by (rule filter_key_one[OF registry_okD(1)[OF ok'] m])
  have cleared: "native (snd (clearTimer i s)) (timer old) = None"
    using assms(3) by (simp add: native_clearTimer)
  have gone: "native s' (timer old) = None"
    using nat' old_lt by simp
  have never: "fire (timer old) env s' = s'" for env
    by (rule fire_dead[OF gone])
  have armed: "native s' (timer ?new) = Some (Interval, i)"
    using nat' by simp
  have uniq: "t = timer ?new" if "native s' t = Some (ty, i)" for t ty
    using registry_okD(3)[OF ok' that] m by auto
  have new: "\<exists>new. map_of (timers s') i = Some new \<and> timer new = nextNative s
            \<and> timer new \<noteq> timer old \<and> executionCount new = 0 \<and> created new = now
            \<and> native s' (timer new) = Some (Interval, i)
            \<and> (\<forall>t ty. native s' t = Some (ty, i) \<longrightarrow> t = timer new)"
  proof (intro exI[of _ ?new] conjI allI impI)
    show "map_of (timers s') i = Some ?new" by (rule m)
    show "timer ?new = nextNative s" by simp
    show "timer ?new \<noteq> timer old" using old_lt by simp
    show "executionCount ?new = 0" by simp
    show "created ?new = now" by simp
    show "native s' (timer ?new) = Some (Interval, i)" by (rule armed)
    fix t ty assume "native s' t = Some (ty, i)"
    then show "t = timer ?new" by (rule uniq)
  qed
  have glob: "length (filter (\<lambda>(k', h). k' = k) (timers (run_ops ops' new_timer_manager))) \<le> 1
            \<and> (\<forall>t1 t2 ty1 ty2. native (run_ops ops' new_timer_manager) t1 = Some (ty1, k)
                  \<and> native (run_ops ops' new_timer_manager) t2 = Some (ty2, k) \<longrightarrow> t1 = t2)"
    for ops' k
  proof -
    have R: "registry_ok (run_ops ops' new_timer_manager)" by (rule registry_ok_reachable)
    have "t1 = t2" if "native (run_ops ops' new_timer_manager) t1 = Some (ty1, k)"
      and "native (run_ops ops' new_timer_manager) t2 = Some (ty2, k)" for t1 t2 ty1 ty2
      using registry_okD(3)[OF R that(1)] registry_okD(3)[OF R that(2)] by auto
    then show ?thesis using filter_key_le_one[OF registry_okD(1)[OF R]] by blast
  qed
  have N: "\<forall>env. fire (timer old) env s' = s'" by (intro allI) (rule never)
  have G: "\<forall>ops' k. length (filter (\<lambda>(k', h). k' = k) (timers (run_ops ops' new_timer_manager))) \<le> 1
            \<and> (\<forall>t1 t2 ty1 ty2. native (run_ops ops' new_timer_manager) t1 = Some (ty1, k)
                  \<and> native (run_ops ops' new_timer_manager) t2 = Some (ty2, k) \<longrightarrow> t1 = t2)"
    by (intro allI) (rule glob)
  show ?thesis
    by (intro conjI) (fact r one cleared gone N new G)+
qed



theorem one_task_per_id_witness:
  "fst (setInterval 20 (Some ''a'') None 5
        (run_ops [Op_setInterval 10 (Some ''a'') None 0] new_timer_manager)) = ''a''
   \<and> native (snd (setInterval 20 (Some ''a'') None 5
        (run_ops [Op_setInterval 10 (Some ''a'') None 0] new_timer_manager))) 0 = None
   \<and> native (snd (setInterval 20 (Some ''a'') None 5
        (run_ops [Op_setInterval 10 (Some ''a'') None 0] new_timer_manager))) 1
       = Some (Interval, ''a'')"
proof -
  let ?s = "run_ops [Op_setInterval 10 (Some ''a'') None 0] new_timer_manager"
  let ?old = "\<lparr>id_t = ''a'', type_t = Interval, timer = 0, delay = 10, created = 0,
               lastExecuted = None, executionCount = 0, maxExecutions = None,
               ttlMs = None, memoryPressureLimit = None, streamCompleted = False\<rparr>"
  let ?r = "setInterval 20 (Some ''a'') None 5 ?s"
  have h2: "\<not> isShuttingDown ?s" by (simp add: setInterval_def new_timer_manager_def)
  have h3: "map_of (timers ?s) ''a'' = Some ?old" by (simp add: setInterval_def new_timer_manager_def)
  have h4: "''a'' \<noteq> ''''" by simp
  have h5: "?r = (fst ?r, snd ?r)" by simp
  note T = one_task_per_id[OF refl h2 h3 h4 h5]
  have a: "fst ?r = ''a''" using T[THEN conjunct1] .
  have b: "native (snd ?r) 0 = None"
    using T[THEN conjunct2, THEN conjunct2, THEN conjunct2, THEN conjunct1] by simp
  have c: "native (snd ?r) 1 = Some (Interval, ''a'')"
    by (simp add: setInterval_def new_timer_manager_def clearTimer_def)
  show ?thesis using a b c by simp
qed

lemma timers_emergency_clear:
  "timers (emergency_clear msg hs s) = filter (\<lambda>(k, h). k \<notin> id_t ` set hs) (timers s)"
proof (induction hs arbitrary: s)
  case Nil
  then show ?case by simp
next
  case (Cons a hs)
  have "filter (\<lambda>(k, h). k \<notin> id_t ` set hs) (AList.delete (id_t a) (timers s))
      = filter (\<lambda>(k, h). k \<notin> id_t ` set (a # hs)) (timers s)"
    by (auto simp: AList.delete_eq intro!: filter_cong)
  then show ?case using Cons.IH by (simp add: timers_clearTimer)
qed

lemma timers_clear_each:
  "timers (clear_each ids s) = filter (\<lambda>(k, h). k \<notin> set ids) (timers s)"
proof (induction ids arbitrary: s)
  case Nil
  then show ?case by simp
next
  case (Cons a ids)
  have "filter (\<lambda>(k, h). k \<notin> set ids) (AList.delete a (timers s))
      = filter (\<lambda>(k, h). k \<notin> set (a # ids)) (timers s)"
    by (auto simp: AList.delete_eq intro!: filter_cong)
  then show ?case using Cons.IH by (simp add: timers_clearTimer)
qed

lemma problematic_ids:
  assumes "registry_ok s" and "(k, h) \<in> set (timers s)"
  shows "k \<in> id_t ` set (filter P (map snd (timers s))) \<longleftrightarrow> P h"
proof
  assume "k \<in> id_t ` set (filter P (map snd (timers s)))"
  then obtain k' h' where kh: "(k', h') \<in> set (timers s)" "P h'" "id_t h' = k" by auto
  have d: "distinct (map fst (timers s))" by (rule registry_okD(1)[OF assms(1)])
  have "map_of (timers s) k' = Some h'" using kh(1) d by simp
  then have "k' = k" using registry_okD(2)[OF assms(1)] kh(3) by auto
  then have "h' = h" using kh(1) assms(2) d by (auto dest: eq_key_imp_eq_value)
  then show "P h" using kh(2) by simp
next
  assume "P h"
  moreover have "id_t h = k"
    using registry_okD(2)[OF assms(1), of k h] assms(2) registry_okD(1)[OF assms(1)] by simp
  ultimately show "k \<in> id_t ` set (filter P (map snd (timers s)))"
    using assms(2) by force
qed

lemma timers_emergencyCleanup:
  assumes "registry_ok s"
  shows "timers (emergencyCleanup now s) =
     (let rest = filter (\<lambda>(k, h). \<not> now - created h > 300000 \<and> \<not> executionCount h > 1000) (timers s)
      in if length rest > 10 then filter (\<lambda>(k, h). type_t h \<noteq> Interval) rest else rest)"
proof -
  let ?long = "\<lambda>h. now - created h > 300000"
  let ?high = "\<lambda>h. executionCount h > 1000"
  let ?s0 = "s\<lparr>console := console s @ [Warn_emergency]\<rparr>"
  let ?s1 = "emergency_clear Warn_emergency_long_running (filter ?long (map snd (timers s))) ?s0"
  let ?s2 = "emergency_clear Warn_emergency_high_execution (filter ?high (map snd (timers s))) ?s1"
  let ?rest = "filter (\<lambda>(k, h). \<not> ?long h \<and> \<not> ?high h) (timers s)"
  have sel: "(case p of (k, h) \<Rightarrow> k \<notin> id_t ` set (filter P (map snd (timers s))))
           = (case p of (k, h) \<Rightarrow> \<not> P h)" if "p \<in> set (timers s)" for p P
    using problematic_ids[OF assms, of "fst p" "snd p" P] that by (cases p) simp
  have t0: "timers ?s0 = timers s" by simp
  have t1: "timers ?s1 = filter (\<lambda>(k, h). \<not> ?long h) (timers s)"
    unfolding timers_emergency_clear t0
    by (rule filter_cong[OF refl]) (rule sel)
  have "filter (\<lambda>(k, h). k \<notin> id_t ` set (filter ?high (map snd (timers s))))
           (filter (\<lambda>(k, h). \<not> ?long h) (timers s))
        = filter (\<lambda>(k, h). \<not> ?high h) (filter (\<lambda>(k, h). \<not> ?long h) (timers s))"
  proof (rule filter_cong[OF refl])
    fix p assume "p \<in> set (filter (\<lambda>(k, h). \<not> ?long h) (timers s))"
    then have "p \<in> set (timers s)" by simp
    then show "(case p of (k, h) \<Rightarrow> k \<notin> id_t ` set (filter ?high (map snd (timers s))))
           = (case p of (k, h) \<Rightarrow> \<not> ?high h)"
      by (rule sel)
  qed
  then have "timers ?s2 = filter (\<lambda>(k, h). \<not> ?high h) (filter (\<lambda>(k, h). \<not> ?long h) (timers s))"
    unfolding timers_emergency_clear[of _ _ ?s1] t1 .
  then have t2: "timers ?s2 = ?rest"
    by (simp add: case_prod_unfold conj_commute)
  have t3: "filter (\<lambda>(k, h). k \<notin> set (map fst (filter (\<lambda>(i, handle). type_t handle = Interval) ?rest))) ?rest
          = filter (\<lambda>(k, h). type_t h \<noteq> Interval) ?rest"
  proof (rule filter_cong[OF refl])
    fix p assume p: "p \<in> set ?rest"
    obtain k h where kh: "p = (k, h)" by (cases p)
    have d: "distinct (map fst ?rest)"
      using registry_okD(1)[OF assms] by (simp add: distinct_map_filter)
    have "k \<in> set (map fst (filter (\<lambda>(i, handle). type_t handle = Interval) ?rest))
            \<longleftrightarrow> type_t h = Interval"
    proof
      assume "k \<in> set (map fst (filter (\<lambda>(i, handle). type_t handle = Interval) ?rest))"
      then obtain h' where h': "(k, h') \<in> set ?rest" "type_t h' = Interval" by auto
      then have "h' = h" using p kh d by (auto dest: eq_key_imp_eq_value)
      then show "type_t h = Interval" using h' by simp
    next
      assume "type_t h = Interval"
      then show "k \<in> set (map fst (filter (\<lambda>(i, handle). type_t handle = Interval) ?rest))"
        using p kh by force
    qed
    then show "(case p of (k, h) \<Rightarrow> k \<notin> set (map fst (filter (\<lambda>(i, handle). type_t handle = Interval) ?rest)))
             = (case p of (k, h) \<Rightarrow> type_t h \<noteq> Interval)"
      using kh by simp
  qed
  show ?thesis
    using t2 t3
    by (simp add: emergencyCleanup_def findProblematicTimers_def Let_def timers_clear_each)
qed

text \<open>
  Claim C1 as stated fails: a timeout registered with a ten-minute delay is older than five
  minutes when \<open>emergencyCleanup\<close> runs 300001 ms later, and is cancelled although it is a
  deferred task.
\<close>

theorem emergencyCleanup_cancels_deferred_counterexample:
  "map_option type_t
      (map_of (timers (run_ops [Op_setTimeout 600000 (Some ''later'') 0] new_timer_manager)) ''later'')
     = Some Timeout
   \<and> map_of (timers (emergencyCleanup 300001
        (run_ops [Op_setTimeout 600000 (Some ''later'') 0] new_timer_manager))) ''later'' = None"
  by (simp add: setTimeout_def new_timer_manager_def emergencyCleanup_def
      findProblematicTimers_def clearTimer_def Let_def)

text \<open>
  Claim C1, amended. \<open>emergencyCleanup()\<close> takes no cap and ranks nothing. It cancels every
  registered timer, interval or timeout, that is older than five minutes or has run more
  than 1000 times; if more than 10 timers are left after that, it cancels every interval
  among them and keeps the timeouts. A timeout that is at most five minutes old and has run
  at most 1000 times is never cancelled.
\<close>

theorem emergencyCleanup_thresholds:
  assumes "s = run_ops ops new_timer_manager"
  shows "timers (emergencyCleanup now s) =
       (let rest = filter (\<lambda>(k, h). \<not> now - created h > 300000 \<and> \<not> executionCount h > 1000) (timers s)
        in if length rest > 10 then filter (\<lambda>(k, h). type_t h \<noteq> Interval) rest else rest)
     \<and> (\<forall>k h. map_of (timers s) k = Some h \<and> type_t h = Timeout
              \<and> now - created h \<le> 300000 \<and> executionCount h \<le> 1000
           \<longrightarrow> map_of (timers (emergencyCleanup now s)) k = Some h)"
proof -
  have ok: "registry_ok s" using assms by (simp add: registry_ok_reachable)
  note T = timers_emergencyCleanup[OF ok, of now]
  have kept: "map_of (timers (emergencyCleanup now s)) k = Some h"
    if "map_of (timers s) k = Some h" and "type_t h = Timeout"
      and "now - created h \<le> 300000" and "executionCount h \<le> 1000" for k h
  proof -
    let ?rest = "filter (\<lambda>(k, h). \<not> now - created h > 300000 \<and> \<not> executionCount h > 1000) (timers s)"
    have r: "map_of ?rest k = Some h"
      using map_of_filter_in[where P = "\<lambda>k h. \<not> now - created h > 300000 \<and> \<not> executionCount h > 1000",
          OF that(1)] that(3,4) by simp
    have "map_of (filter (\<lambda>(k, h). type_t h \<noteq> Interval) ?rest) k = Some h"
      using map_of_filter_in[where P = "\<lambda>k h. type_t h \<noteq> Interval", OF r] that(2) by simp
    then show ?thesis using r unfolding T by (simp add: Let_def)
  qed
  show ?thesis using T kept by blast
qed

theorem emergencyCleanup_thresholds_witness:
  "map fst (timers (emergencyCleanup 300001
      (run_ops [Op_setInterval 10 (Some ''old'') None 0, Op_setTimeout 50 (Some ''t'') 299000]
         new_timer_manager))) = [''t'']"
proof -
  let ?s = "run_ops [Op_setInterval 10 (Some ''old'') None 0, Op_setTimeout 50 (Some ''t'') 299000]
         new_timer_manager"
  have "map fst (let rest = filter (\<lambda>(k, h). \<not> 300001 - created h > 300000 \<and> \<not> executionCount h > 1000) (timers ?s)
        in if length rest > 10 then filter (\<lambda>(k, h). type_t h \<noteq> Interval) rest else rest) = [''t'']"
    by (simp add: setInterval_def setTimeout_def new_timer_manager_def)
  then show ?thesis
    using emergencyCleanup_thresholds[OF refl, of 300001 "[Op_setInterval 10 (Some ''old'') None 0, Op_setTimeout 50 (Some ''t'') 299000]", THEN conjunct1]
    by simp
qed

subsection \<open>Mutex: arrival order, release, and the waiter that timed out\<close>

lemma fifo_inv_new: "fifo_inv new_mutex"
  by (simp add: fifo_inv_def new_mutex_def)

lemma fifo_invD:
  assumes "fifo_inv s"
  shows "resolved s = [0 ..< length (resolved s)]"
    and "rejected s = []"
    and "locked s \<Longrightarrow> 0 < length (resolved s)"
    and "length (resolved s) \<le> nextCall s"
    and "map timeout (queue s) = [length (resolved s) - (if locked s then 1 else 0) ..< nextCall s]"
    and "q \<in> set (queue s) \<Longrightarrow> \<exists>holderId. tryLock q = Wrapped (timeout q) holderId"
    and "immediates s = (if \<not> locked s \<and> queue s \<noteq> [] then [tryLock (hd (queue s))] else [])"
  using assms unfolding fifo_inv_def by blast+

lemma fifo_inv_locked_queue:
  assumes "fifo_inv s" and "locked s"
  shows "length (resolved s) - 1 < nextCall s" and "queue s \<noteq> []"
proof -
  show lt: "length (resolved s) - 1 < nextCall s"
    using fifo_invD(3,4)[OF assms(1)] assms(2) by arith
  have "map timeout (queue s) = [length (resolved s) - 1 ..< nextCall s]"
    using fifo_invD(5)[OF assms(1)] assms(2) by simp
  then have "map timeout (queue s) \<noteq> []" using lt by simp
  then show "queue s \<noteq> []" by auto
qed

lemma fifo_inv_unlock:
  assumes "fifo_inv s" and "locked s"
  shows "fifo_inv (unlock s)"
proof -
  obtain current rest where q: "queue s = current # rest"
    using fifo_inv_locked_queue(2)[OF assms] by (cases "queue s") auto
  have lt: "length (resolved s) - 1 < nextCall s"
    by (rule fifo_inv_locked_queue(1)[OF assms])
  have pos: "0 < length (resolved s)" using fifo_invD(3)[OF assms(1)] assms(2) by simp
  have m: "map timeout (queue s) = [length (resolved s) - 1 ..< nextCall s]"
    using fifo_invD(5)[OF assms(1)] assms(2) by simp
  have "map timeout rest = [Suc (length (resolved s) - 1) ..< nextCall s]"
    using m q lt by (simp add: upt_conv_Cons)
  then have rest: "map timeout rest = [length (resolved s) ..< nextCall s]"
    using pos by simp
  have imm: "immediates s = []" using fifo_invD(7)[OF assms(1)] assms(2) by simp
  have wr: "\<exists>holderId. tryLock x = Wrapped (timeout x) holderId" if "x \<in> set rest" for x
    using fifo_invD(6)[OF assms(1), of x] that q by simp
  have u: "unlock s =
      (if rest = [] then s\<lparr>locked := False, currentHolder := None, queue := rest,
                            armed := filter (\<lambda>(w, captured). w \<noteq> timeout current) (armed s)\<rparr>
       else s\<lparr>locked := False, currentHolder := None, queue := rest,
              armed := filter (\<lambda>(w, captured). w \<noteq> timeout current) (armed s),
              immediates := immediates s @ [tryLock (hd rest)]\<rparr>)"
    using q by (simp add: unlock_def Let_def clearTimeout_def)
  show ?thesis
    unfolding fifo_inv_def u
    using fifo_invD(1,2,4)[OF assms(1)] rest imm wr by auto
qed

lemma fifo_inv_free_head:
  assumes "fifo_inv s" and "\<not> locked s" and "queue s \<noteq> []"
  shows "timeout (hd (queue s)) = length (resolved s)"
    and "\<exists>holderId. tryLock (hd (queue s)) = Wrapped (length (resolved s)) holderId"
    and "length (resolved s) < nextCall s"
proof -
  have m: "map timeout (queue s) = [length (resolved s) ..< nextCall s]"
    using fifo_invD(5)[OF assms(1)] assms(2) by simp
  then have "[length (resolved s) ..< nextCall s] \<noteq> []" using assms(3) by (metis map_is_Nil_conv)
  then show lt: "length (resolved s) < nextCall s" by simp
  have "hd (map timeout (queue s)) = length (resolved s)"
    using m lt by (simp add: upt_conv_Cons)
  then show t: "timeout (hd (queue s)) = length (resolved s)"
    using assms(3) by (simp add: hd_map)
  show "\<exists>holderId. tryLock (hd (queue s)) = Wrapped (length (resolved s)) holderId"
    using fifo_invD(6)[OF assms(1), of "hd (queue s)"] assms(3) t by simp
qed

lemma fifo_inv_run_immediate:
  assumes "fifo_inv s"
  shows "fifo_inv (step Run_immediate s)"
proof (cases "immediates s")
  case Nil
  then show ?thesis using assms by simp
next
  case (Cons c cs)
  have free: "\<not> locked s" and ne: "queue s \<noteq> []"
    using fifo_invD(7)[OF assms] Cons by (auto split: if_splits)
  have cs: "cs = []" and c: "c = tryLock (hd (queue s))"
    using fifo_invD(7)[OF assms] Cons free ne by simp_all
  obtain holderId where w: "c = Wrapped (length (resolved s)) holderId"
    using fifo_inv_free_head(2)[OF assms free ne] c by auto
  have st: "step Run_immediate s
      = s\<lparr>immediates := [], armed := filter (\<lambda>(w', captured). w' \<noteq> length (resolved s)) (armed s),
           locked := True, lockAcquisitionCount := lockAcquisitionCount s + 1,
           currentHolder := holderId, resolved := resolved s @ [length (resolved s)]\<rparr>"
  proof -
    have "length (resolved s) \<notin> set (resolved s)"
      using fifo_invD(1)[OF assms] by (metis atLeastLessThan_iff less_irrefl set_upt)
    then show ?thesis
      using Cons cs w free fifo_invD(2)[OF assms]
      by (simp add: tryLock_body_def clearTimeout_def resolve_def)
  qed
  have m: "map timeout (queue s) = [length (resolved s) ..< nextCall s]"
    using fifo_invD(5)[OF assms] free by simp
  have r: "resolved s @ [length (resolved s)] = [0 ..< Suc (length (resolved s))]"
    using fifo_invD(1)[OF assms] by simp
  show ?thesis
    unfolding fifo_inv_def st
    using r m fifo_invD(2,6)[OF assms] fifo_inv_free_head(3)[OF assms free ne]
    by auto
qed

lemma fifo_inv_lock:
  assumes "fifo_inv s"
  shows "fifo_inv (snd (lock timeoutMs holderId s))"
proof (cases "queue s = []")
  case True
  have free: "\<not> locked s" using fifo_inv_locked_queue(2)[OF assms] True by auto
  have "map timeout (queue s) = [length (resolved s) ..< nextCall s]"
    using fifo_invD(5)[OF assms] free by simp
  then have "[length (resolved s) ..< nextCall s] = []" using True by simp
  then have "nextCall s \<le> length (resolved s)" by auto
  then have len: "nextCall s = length (resolved s)" using fifo_invD(4)[OF assms] by arith
  have notin: "length (resolved s) \<notin> set (resolved s)"
    using fifo_invD(1)[OF assms] by (metis atLeastLessThan_iff less_irrefl set_upt)
  have st: "snd (lock timeoutMs holderId s)
      = s\<lparr>nextCall := Suc (length (resolved s)),
           queue := [\<lparr>tryLock = Wrapped (length (resolved s)) holderId, timeout = length (resolved s)\<rparr>],
           maxQueueSize := max (maxQueueSize s) 1,
           armed := filter (\<lambda>(w', captured). w' \<noteq> length (resolved s))
                      (armed s @ [(length (resolved s), timeoutMs, holderId)]),
           locked := True, lockAcquisitionCount := lockAcquisitionCount s + 1,
           currentHolder := holderId, resolved := resolved s @ [length (resolved s)]\<rparr>"
    using True len free notin fifo_invD(2)[OF assms]
    by (simp add: lock_def Let_def tryLock_body_def clearTimeout_def resolve_def)
  have r: "resolved s @ [length (resolved s)] = [0 ..< Suc (length (resolved s))]"
    using fifo_invD(1)[OF assms] by simp
  have imm: "immediates s = []" using fifo_invD(7)[OF assms] True by simp
  show ?thesis
    unfolding fifo_inv_def st using r imm fifo_invD(2)[OF assms] by simp
next
  case False
  let ?r = "length (resolved s) - (if locked s then 1 else 0)"
  have st: "snd (lock timeoutMs holderId s)
      = s\<lparr>nextCall := Suc (nextCall s),
           armed := armed s @ [(nextCall s, timeoutMs, holderId)],
           queue := queue s @ [\<lparr>tryLock = Wrapped (nextCall s) holderId, timeout = nextCall s\<rparr>],
           maxQueueSize := max (maxQueueSize s) (Suc (length (queue s)))\<rparr>"
    using False by (simp add: lock_def Let_def)
  have le: "?r \<le> nextCall s" using fifo_invD(4)[OF assms] by simp
  have m: "map timeout (queue s) @ [nextCall s] = [?r ..< Suc (nextCall s)]"
    using fifo_invD(5)[OF assms] le by simp
  show ?thesis
    unfolding fifo_inv_def st
    using m False fifo_invD(1,2,3,4,6,7)[OF assms]
    by (auto simp: hd_append)
qed

lemma fifo_inv_step:
  assumes "fifo_inv s" and "disciplined (e # es) s"
  shows "fifo_inv (step e s)"
proof (cases e)
  case (Lock timeoutMs holderId)
  then show ?thesis using fifo_inv_lock[OF assms(1)] by simp
next
  case Unlock
  then show ?thesis using fifo_inv_unlock[OF assms(1)] assms(2) by simp
next
  case Run_immediate
  then show ?thesis using fifo_inv_run_immediate[OF assms(1)] by simp
next
  case (Timeout_fires w)
  then show ?thesis using assms by simp
qed

lemma disciplined_tail: "disciplined (e # es) s \<Longrightarrow> disciplined es (step e s)"
  by (cases e) auto

lemma fifo_inv_run:
  "fifo_inv s \<Longrightarrow> disciplined es s \<Longrightarrow> fifo_inv (run es s)"
proof (induction es arbitrary: s)
  case Nil
  then show ?case by simp
next
  case (Cons e es)
  from Cons.IH[OF fifo_inv_step[OF Cons.prems] disciplined_tail[OF Cons.prems(2)]]
  show ?case by simp
qed

lemma run_immediate_grants:
  assumes "fifo_inv s" and "\<not> locked s" and "queue s \<noteq> []"
  shows "locked (step Run_immediate s)"
    and "resolved (step Run_immediate s) = resolved s @ [timeout (hd (queue s))]"
    and "\<exists>holderId. tryLock (hd (queue s)) = Wrapped (timeout (hd (queue s))) holderId
           \<and> currentHolder (step Run_immediate s) = holderId"
proof -
  obtain holderId where w: "tryLock (hd (queue s)) = Wrapped (length (resolved s)) holderId"
    using fifo_inv_free_head(2)[OF assms] by auto
  have t: "timeout (hd (queue s)) = length (resolved s)"
    by (rule fifo_inv_free_head(1)[OF assms])
  have imm: "immediates s = [Wrapped (length (resolved s)) holderId]"
    using fifo_invD(7)[OF assms(1)] assms(2,3) w by simp
  have "length (resolved s) \<notin> set (resolved s)"
    using fifo_invD(1)[OF assms(1)] by (metis atLeastLessThan_iff less_irrefl set_upt)
  then have st: "step Run_immediate s
      = s\<lparr>immediates := [], armed := filter (\<lambda>(w', captured). w' \<noteq> length (resolved s)) (armed s),
           locked := True, lockAcquisitionCount := lockAcquisitionCount s + 1,
           currentHolder := holderId, resolved := resolved s @ [length (resolved s)]\<rparr>"
    using imm assms(2) fifo_invD(2)[OF assms(1)]
    by (simp add: tryLock_body_def clearTimeout_def resolve_def)
  show "locked (step Run_immediate s)" unfolding st by simp
  show "resolved (step Run_immediate s) = resolved s @ [timeout (hd (queue s))]"
    unfolding st t by simp
  show "\<exists>holderId. tryLock (hd (queue s)) = Wrapped (timeout (hd (queue s))) holderId
           \<and> currentHolder (step Run_immediate s) = holderId"
    unfolding st t using w by simp
qed

lemma lock_behind_waiters:
  assumes "queue s \<noteq> []"
  shows "snd (lock timeoutMs holderId s)
      = s\<lparr>nextCall := Suc (nextCall s),
           armed := armed s @ [(nextCall s, timeoutMs, holderId)],
           queue := queue s @ [\<lparr>tryLock = Wrapped (nextCall s) holderId, timeout = nextCall s\<rparr>],
           maxQueueSize := max (maxQueueSize s) (Suc (length (queue s)))\<rparr>"
  using assms by (simp add: lock_def Let_def)

lemma run_locks_behind_waiters:
  assumes "queue s \<noteq> []" and "\<forall>e\<in>set ls. is_Lock e"
  shows "locked (run ls s) = locked s \<and> resolved (run ls s) = resolved s
       \<and> queue (run ls s) \<noteq> [] \<and> hd (queue (run ls s)) = hd (queue s)
       \<and> disciplined ls s"
  using assms
proof (induction ls arbitrary: s)
  case Nil
  then show ?case by simp
next
  case (Cons e ls)
  obtain timeoutMs holderId where e: "e = Lock timeoutMs holderId"
    using Cons.prems(2) by (cases e) auto
  let ?s = "step e s"
  have q: "queue ?s \<noteq> []" and h: "hd (queue ?s) = hd (queue s)"
    and l: "locked ?s = locked s" and r: "resolved ?s = resolved s"
    using Cons.prems(1) unfolding e by (simp_all add: lock_behind_waiters)
  from Cons.IH[OF q] Cons.prems(2) h l r show ?case by (simp add: e)
qed

lemma handoff:
  assumes "fifo_inv s" and "locked s" and "2 \<le> length (queue s)"
    and "\<forall>e\<in>set ls. is_Lock e"
  shows "locked (step Run_immediate (run ls (unlock s)))"
    and "resolved (step Run_immediate (run ls (unlock s))) = resolved s @ [timeout (queue s ! 1)]"
proof -
  obtain current nxt rest where q: "queue s = current # nxt # rest"
    using assms(3) by (cases "queue s"; cases "tl (queue s)") auto
  have inv1: "fifo_inv (unlock s)" by (rule fifo_inv_unlock[OF assms(1,2)])
  have u: "queue (unlock s) = nxt # rest" "\<not> locked (unlock s)" "resolved (unlock s) = resolved s"
    using q by (simp_all add: unlock_def Let_def clearTimeout_def)
  have ne: "queue (unlock s) \<noteq> []" using u(1) by simp
  note L = run_locks_behind_waiters[OF ne assms(4)]
  have inv2: "fifo_inv (run ls (unlock s))"
    using fifo_inv_run[OF inv1] L by simp
  have free2: "\<not> locked (run ls (unlock s))" using L u(2) by simp
  have ne2: "queue (run ls (unlock s)) \<noteq> []" using L by simp
  have hd2: "hd (queue (run ls (unlock s))) = nxt" using L u(1) by simp
  show "locked (step Run_immediate (run ls (unlock s)))"
    by (rule run_immediate_grants(1)[OF inv2 free2 ne2])
  show "resolved (step Run_immediate (run ls (unlock s))) = resolved s @ [timeout (queue s ! 1)]"
    using run_immediate_grants(2)[OF inv2 free2 ne2] hd2 L u(3) q by simp
qed

lemma nextCall_run: "nextCall (run evs s) = nextCall s + length (filter is_Lock evs)"
proof (induction evs arbitrary: s)
  case Nil
  then show ?case by simp
next
  case (Cons e evs)
  have "nextCall (step e s) = nextCall s + (if is_Lock e then 1 else 0)"
  proof (cases e)
    case (Lock timeoutMs holderId)
    then show ?thesis
      by (simp add: lock_def Let_def tryLock_body_def clearTimeout_def resolve_def)
  next
    case Unlock
    then show ?thesis
      by (simp add: unlock_def Let_def clearTimeout_def split: list.splits)
  next
    case Run_immediate
    then show ?thesis
      by (cases "immediates s"; cases "hd (immediates s)")
        (simp_all add: tryLock_body_def clearTimeout_def resolve_def Let_def)
  next
    case (Timeout_fires w)
    then show ?thesis
      by (simp add: timeout_handler_def Let_def reject_def clearTimeout_def
          split: option.splits prod.splits)
  qed
  then show ?case using Cons.IH[of "step e s"] by simp
qed

text \<open>
  As long as each holder releases once and no armed timeout timer fires, the calls of
  \<open>lock\<close> are granted in exactly the order in which they were made, and a release with a
  waiter queued hands the lock to the head of the queue, whatever calls of \<open>lock\<close> arrive
  between the release and the scheduled immediate.
\<close>

lemma fifo_while_no_timeout_fires:
  assumes "disciplined evs new_mutex"
  shows "nextCall (run evs new_mutex) = length (filter is_Lock evs)
     \<and> resolved (run evs new_mutex) = [0 ..< length (resolved (run evs new_mutex))]
     \<and> prefix (resolved (run evs new_mutex)) [0 ..< nextCall (run evs new_mutex)]
     \<and> map timeout (queue (run evs new_mutex))
          = [length (resolved (run evs new_mutex)) - (if locked (run evs new_mutex) then 1 else 0)
               ..< nextCall (run evs new_mutex)]
     \<and> (locked (run evs new_mutex) \<and> 2 \<le> length (queue (run evs new_mutex)) \<longrightarrow>
          (\<forall>ls. (\<forall>e\<in>set ls. is_Lock e) \<longrightarrow>
             locked (step Run_immediate (run ls (step Unlock (run evs new_mutex))))
           \<and> resolved (step Run_immediate (run ls (step Unlock (run evs new_mutex))))
               = resolved (run evs new_mutex) @ [timeout (queue (run evs new_mutex) ! 1)]))"
proof -
  let ?s = "run evs new_mutex"
  have inv: "fifo_inv ?s" by (rule fifo_inv_run[OF fifo_inv_new assms])
  have n: "nextCall ?s = length (filter is_Lock evs)"
    using nextCall_run[of evs new_mutex] by (simp add: new_mutex_def)
  have r: "resolved ?s = [0 ..< length (resolved ?s)]" by (rule fifo_invD(1)[OF inv])
  have "[0 ..< nextCall ?s] = [0 ..< length (resolved ?s)] @ [length (resolved ?s) ..< nextCall ?s]"
    using fifo_invD(4)[OF inv] by (metis le0 upt_add_eq_append le_Suc_ex)
  then have p: "prefix (resolved ?s) [0 ..< nextCall ?s]"
    using r by (metis prefixI)
  have q: "map timeout (queue ?s)
          = [length (resolved ?s) - (if locked ?s then 1 else 0) ..< nextCall ?s]"
    by (rule fifo_invD(5)[OF inv])
  have h: "locked (step Run_immediate (run ls (step Unlock ?s)))
           \<and> resolved (step Run_immediate (run ls (step Unlock ?s)))
               = resolved ?s @ [timeout (queue ?s ! 1)]"
    if "locked ?s" and "2 \<le> length (queue ?s)" and "\<forall>e\<in>set ls. is_Lock e" for ls
    using handoff[OF inv that] by simp
  show ?thesis
    by (intro conjI impI allI) (use n r p q h in blast)+
qed

text \<open>
  Whatever \<open>fn\<close> does, the \<open>finally\<close> block of \<open>withLock\<close> releases, in every state:
  \<open>getStats().isLocked\<close> is false and the holder is cleared when the outcome of \<open>fn\<close> is
  passed on unchanged. A rejected \<open>lock\<close> is passed on without touching the mutex.
\<close>

lemma withLock_releases:
  "\<not> isLocked (getStats (snd (withLock (Inr ()) fn_outcome s)))"
  "currentHolder (snd (withLock (Inr ()) fn_outcome s)) = None"
  "snd (withLock (Inr ()) fn_outcome s) = unlock s"
  "fst (withLock (Inr ()) fn_outcome s)
     = (case fn_outcome of Inl e \<Rightarrow> Inl (Fn_threw e) | Inr v \<Rightarrow> Inr v)"
  "withLock (Inl err) fn_outcome s = (Inl (Lock_rejected err), s)"
  by (cases fn_outcome;
      simp add: withLock_def getStats_def unlock_def Let_def clearTimeout_def split: list.splits)+

text \<open>While no armed timeout timer fires, the release of \<open>withLock\<close> reaches the waiter.\<close>

lemma withLock_hands_over_while_no_timeout_fires:
  assumes "disciplined evs new_mutex" and "s = run evs new_mutex" and "locked s"
    and "2 \<le> length (queue s)"
  shows "locked (step Run_immediate (snd (withLock (Inr ()) fn_outcome s)))"
    and "resolved (step Run_immediate (snd (withLock (Inr ()) fn_outcome s)))
           = resolved s @ [timeout (queue s ! 1)]"
proof -
  have inv: "fifo_inv s" using assms(1,2) by (simp add: fifo_inv_run fifo_inv_new)
  show "locked (step Run_immediate (snd (withLock (Inr ()) fn_outcome s)))"
    using handoff(1)[OF inv assms(3,4), of "[]"] by (simp add: withLock_releases(3))
  show "resolved (step Run_immediate (snd (withLock (Inr ()) fn_outcome s)))
           = resolved s @ [timeout (queue s ! 1)]"
    using handoff(2)[OF inv assms(3,4), of "[]"] by (simp add: withLock_releases(3))
qed

text \<open>
  The timeout handler never takes its call out of the queue: every queue item holds the
  wrapper, and the handler looks for the inner closure.
\<close>

lemma findIndex_inner_closure:
  "\<forall>item\<in>set q. \<exists>w' h'. tryLock item = Wrapped w' h' \<Longrightarrow>
     findIndex (\<lambda>item. tryLock item = TryLock w holderId) q = None"
  by (induction q) auto

lemma timeout_handler_keeps_queue:
  assumes "\<forall>item\<in>set (queue s). \<exists>w' h'. tryLock item = Wrapped w' h'"
  shows "queue (timeout_handler w holderId timeoutMs s) = queue s"
  using findIndex_inner_closure[OF assms, of w holderId]
  by (simp add: timeout_handler_def reject_def Let_def)

text \<open>
  While the lock is held, nothing but a release grants it: calls of \<open>lock\<close> queue up and
  there is no immediate to run.
\<close>

lemma no_grant_without_release:
  assumes "locked s" and "immediates s = []" and "queue s \<noteq> []"
    and "\<forall>e\<in>set es. is_Lock e \<or> e = Run_immediate"
  shows "resolved (run es s) = resolved s \<and> locked (run es s)
       \<and> currentHolder (run es s) = currentHolder s"
  using assms
proof (induction es arbitrary: s)
  case Nil
  then show ?case by simp
next
  case (Cons e es)
  have st: "locked (step e s) \<and> immediates (step e s) = [] \<and> queue (step e s) \<noteq> []
          \<and> resolved (step e s) = resolved s \<and> currentHolder (step e s) = currentHolder s"
  proof (cases "e = Run_immediate")
    case True
    then show ?thesis using Cons.prems by simp
  next
    case False
    then obtain timeoutMs holderId where "e = Lock timeoutMs holderId"
      using Cons.prems(4) by (cases e) auto
    then show ?thesis using Cons.prems(1-3) by (simp add: lock_behind_waiters)
  qed
  from Cons.IH[of "step e s"] st Cons.prems(4) show ?case by simp
qed

lemma holder_and_timed_out_waiter_eq:
  "holder_and_timed_out_waiter =
     \<lparr>queue = [\<lparr>tryLock = Wrapped 0 (Some ''A''), timeout = 0\<rparr>,
               \<lparr>tryLock = Wrapped 1 (Some ''X''), timeout = 1\<rparr>,
               \<lparr>tryLock = Wrapped 2 (Some ''W1''), timeout = 2\<rparr>,
               \<lparr>tryLock = Wrapped 3 (Some ''W2''), timeout = 3\<rparr>],
      locked = True, lockAcquisitionCount = 1, contentionCount = 0, maxQueueSize = 4,
      currentHolder = Some ''A'', nextCall = 4,
      armed = [(2, 5000, Some ''W1''), (3, 5000, Some ''W2'')],
      immediates = [], resolved = [0],
      rejected = [(1, Mutex_timeout 50 (Some ''A'') 4)], mutex_log = []\<rparr>"
  by (simp add: holder_and_timed_out_waiter_def new_mutex_def lock_def tryLock_body_def
      clearTimeout_def resolve_def reject_def timeout_handler_def Let_def)

lemma lost_lock_eq:
  "run [Unlock, Run_immediate] holder_and_timed_out_waiter =
     \<lparr>queue = [\<lparr>tryLock = Wrapped 1 (Some ''X''), timeout = 1\<rparr>,
               \<lparr>tryLock = Wrapped 2 (Some ''W1''), timeout = 2\<rparr>,
               \<lparr>tryLock = Wrapped 3 (Some ''W2''), timeout = 3\<rparr>],
      locked = True, lockAcquisitionCount = 2, contentionCount = 0, maxQueueSize = 4,
      currentHolder = Some ''X'', nextCall = 4,
      armed = [(2, 5000, Some ''W1''), (3, 5000, Some ''W2'')],
      immediates = [], resolved = [0],
      rejected = [(1, Mutex_timeout 50 (Some ''A'') 4)], mutex_log = []\<rparr>"
  unfolding holder_and_timed_out_waiter_eq
  by (simp add: unlock_def tryLock_body_def clearTimeout_def resolve_def Let_def)

lemma lost_lock_stays_lost:
  assumes "\<forall>e\<in>set es. is_Lock e \<or> e = Run_immediate"
  shows "resolved (run es (run [Unlock, Run_immediate] holder_and_timed_out_waiter)) = [0]
       \<and> locked (run es (run [Unlock, Run_immediate] holder_and_timed_out_waiter))
       \<and> currentHolder (run es (run [Unlock, Run_immediate] holder_and_timed_out_waiter)) = Some ''X''"
proof -
  let ?s = "run [Unlock, Run_immediate] holder_and_timed_out_waiter"
  have a: "locked ?s" "immediates ?s = []" "queue ?s \<noteq> []"
    "resolved ?s = [0]" "currentHolder ?s = Some ''X''"
    unfolding lost_lock_eq by simp_all
  from no_grant_without_release[OF a(1-3) assms] a(4,5) show ?thesis by simp
qed

text \<open>
  Claim C4 fails on the code. \<open>A\<close> holds the lock; \<open>X\<close>, \<open>W1\<close> and \<open>W2\<close> called \<open>lock\<close>
  in that order and wait; the 50 ms timer of \<open>X\<close> fires. The handler rejects the promise of
  \<open>X\<close> but leaves its item in the queue, since it compares the wrapper stored in the item
  with the inner closure. \<open>W1\<close> and \<open>W2\<close> have not timed out: their promises are pending
  and their timers armed. When \<open>A\<close> releases, the scheduled immediate calls the item of
  \<open>X\<close>: the mutex is locked for \<open>X\<close>, whose promise is already rejected, so nobody holds
  the \<open>unlock\<close> closure of this grant. \<open>W1\<close> and \<open>W2\<close> are not granted the lock, and by
  \<open>lost_lock_stays_lost\<close> they are not as long as only calls of \<open>lock\<close> and immediates
  follow.
\<close>

theorem timed_out_waiter_is_handed_the_lock:
  "lock_promise 0 holder_and_timed_out_waiter = Some (Inr ())
   \<and> lock_promise 1 holder_and_timed_out_waiter = Some (Inl (Mutex_timeout 50 (Some ''A'') 4))
   \<and> lock_promise 2 holder_and_timed_out_waiter = None
   \<and> lock_promise 3 holder_and_timed_out_waiter = None
   \<and> map timeout (queue holder_and_timed_out_waiter) = [0, 1, 2, 3]
   \<and> map fst (armed holder_and_timed_out_waiter) = [2, 3]
   \<and> locked (run [Unlock, Run_immediate] holder_and_timed_out_waiter)
   \<and> currentHolder (run [Unlock, Run_immediate] holder_and_timed_out_waiter) = Some ''X''
   \<and> resolved (run [Unlock, Run_immediate] holder_and_timed_out_waiter) = [0]
   \<and> lock_promise 2 (run [Unlock, Run_immediate] holder_and_timed_out_waiter) = None
   \<and> lock_promise 3 (run [Unlock, Run_immediate] holder_and_timed_out_waiter) = None
   \<and> immediates (run [Unlock, Run_immediate] holder_and_timed_out_waiter) = []
   \<and> map timeout (queue (run [Unlock, Run_immediate] holder_and_timed_out_waiter)) = [1, 2, 3]
   \<and> map fst (armed (run [Unlock, Run_immediate] holder_and_timed_out_waiter)) = [2, 3]"
  unfolding lost_lock_eq unfolding holder_and_timed_out_waiter_eq
  by (simp add: lock_promise_def)

text \<open>
  Claim C5 fails on the code in its last part. The \<open>lock\<close> of \<open>withLock\<close> was granted
  (call 0, holder \<open>A\<close>); while \<open>fn\<close> runs, \<open>X\<close>, \<open>W1\<close> and \<open>W2\<close> queue up and \<open>X\<close> times
  out; then \<open>fn\<close> throws. The \<open>finally\<close> block releases: \<open>getStats().isLocked\<close> is false
  and the exception is passed on. But the queued item that the release schedules is the
  one of \<open>X\<close>, which the timeout handler failed to remove: the immediate locks the mutex for
  the rejected call, and the waiters \<open>W1\<close> and \<open>W2\<close>, which have not timed out, do not
  acquire.
\<close>

theorem withLock_release_reaches_timed_out_waiter:
  "lock_promise 0 holder_and_timed_out_waiter = Some (Inr ())
   \<and> fst (withLock (Inr ()) (Inl ''boom'' :: string + unit) holder_and_timed_out_waiter)
       = Inl (Fn_threw ''boom'')
   \<and> \<not> isLocked (getStats (snd (withLock (Inr ()) (Inl ''boom'' :: string + unit)
                                   holder_and_timed_out_waiter)))
   \<and> queueSize (getStats (snd (withLock (Inr ()) (Inl ''boom'' :: string + unit)
                                   holder_and_timed_out_waiter))) = 3
   \<and> locked (step Run_immediate (snd (withLock (Inr ()) (Inl ''boom'' :: string + unit)
                                   holder_and_timed_out_waiter)))
   \<and> currentHolder (step Run_immediate (snd (withLock (Inr ()) (Inl ''boom'' :: string + unit)
                                   holder_and_timed_out_waiter))) = Some ''X''
   \<and> resolved (step Run_immediate (snd (withLock (Inr ()) (Inl ''boom'' :: string + unit)
                                   holder_and_timed_out_waiter))) = [0]
   \<and> lock_promise 1 (step Run_immediate (snd (withLock (Inr ()) (Inl ''boom'' :: string + unit)
                                   holder_and_timed_out_waiter)))
       = Some (Inl (Mutex_timeout 50 (Some ''A'') 4))
   \<and> lock_promise 2 (step Run_immediate (snd (withLock (Inr ()) (Inl ''boom'' :: string + unit)
                                   holder_and_timed_out_waiter))) = None
   \<and> lock_promise 3 (step Run_immediate (snd (withLock (Inr ()) (Inl ''boom'' :: string + unit)
                                   holder_and_timed_out_waiter))) = None"
  unfolding holder_and_timed_out_waiter_eq
  by (simp add: lock_promise_def withLock_def getStats_def unlock_def tryLock_body_def
      clearTimeout_def resolve_def Let_def)

subsection \<open>ResourceLifecycleManager: unregister and the emergency eviction\<close>

lemma cleanup_calls_append: "cleanup_calls (xs @ ys) = cleanup_calls xs @ cleanup_calls ys"
  by (induction xs rule: cleanup_calls.induct) simp_all

lemma unregister_resume_facts:
  "fst (unregister_resume i info s) = Fulfilled ()"
  "resources (snd (unregister_resume i info s)) = AList.delete i (resources s)"
  "maxResources (snd (unregister_resume i info s)) = maxResources s"
  "cleanup_calls (effects (snd (unregister_resume i info s))) = cleanup_calls (effects s)"
  by (simp_all add: unregister_resume_def cleanup_calls_append split: settled.splits)

lemma unregister_facts:
  "fst (unregister i s) = Fulfilled ()"
  "resources (snd (unregister i s)) = AList.delete i (resources s)"
  "maxResources (snd (unregister i s)) = maxResources s"
  "cleanup_calls (effects (snd (unregister i s)))
     = cleanup_calls (effects s) @ (if map_of (resources s) i = None then [] else [i])"
proof -
  show "fst (unregister i s) = Fulfilled ()"
    by (simp add: unregister_def unregister_begin_def unregister_resume_facts split: option.splits)
  show "resources (snd (unregister i s)) = AList.delete i (resources s)"
  proof (cases "map_of (resources s) i")
    case None
    then have "i \<notin> fst ` set (resources s)" by (simp add: map_of_eq_None_iff)
    then show ?thesis using None
      by (simp add: unregister_def unregister_begin_def delete_id)
  next
    case (Some info)
    then show ?thesis
      by (simp add: unregister_def unregister_begin_def unregister_resume_facts)
  qed
  show "maxResources (snd (unregister i s)) = maxResources s"
    by (simp add: unregister_def unregister_begin_def unregister_resume_facts split: option.splits)
  show "cleanup_calls (effects (snd (unregister i s)))
     = cleanup_calls (effects s) @ (if map_of (resources s) i = None then [] else [i])"
    by (simp add: unregister_def unregister_begin_def unregister_resume_facts cleanup_calls_append
        split: option.splits)
qed

lemma finish_loop_step:
  "finish_loop (i # ids) n s = finish_loop ids n (snd (unregister i s))"
  using unregister_facts(1)[of i s] by (cases "unregister i s") (simp split: settled.splits)

lemma resources_finish_loop:
  "resources (finish_loop ids n s) = filter (\<lambda>(k, v). k \<notin> set ids) (resources s)"
proof (induction ids arbitrary: s)
  case Nil
  then show ?case by simp
next
  case (Cons i ids)
  have "filter (\<lambda>(k, v). k \<notin> set ids) (AList.delete i (resources s))
      = filter (\<lambda>(k, v). k \<notin> set (i # ids)) (resources s)"
    by (auto simp: AList.delete_eq intro!: filter_cong)
  then show ?case using Cons.IH by (simp only: finish_loop_step unregister_facts)
qed

lemma maxResources_finish_loop: "maxResources (finish_loop ids n s) = maxResources s"
  by (induction ids arbitrary: s) (simp_all only: finish_loop_step unregister_facts, simp_all)

lemma cleanup_calls_finish_loop:
  assumes "distinct ids" and "set ids \<subseteq> fst ` set (resources s)"
  shows "cleanup_calls (effects (finish_loop ids n s)) = cleanup_calls (effects s) @ ids"
  using assms
proof (induction ids arbitrary: s)
  case Nil
  then show ?case by (simp add: cleanup_calls_append)
next
  case (Cons i ids)
  have present: "map_of (resources s) i \<noteq> None"
    using Cons.prems(2) by (simp add: map_of_eq_None_iff)
  have sub: "set ids \<subseteq> fst ` set (resources (snd (unregister i s)))"
  proof
    fix x assume x: "x \<in> set ids"
    then have "x \<noteq> i" using Cons.prems(1) by auto
    moreover obtain v where "(x, v) \<in> set (resources s)" using x Cons.prems(2) by auto
    ultimately show "x \<in> fst ` set (resources (snd (unregister i s)))"
      by (force simp: unregister_facts(2) AList.delete_eq)
  qed
  have d: "distinct ids" using Cons.prems(1) by simp
  show ?case
    using Cons.IH[OF d sub, of ] present
    by (simp only: finish_loop_step unregister_facts) simp
qed

lemma emergency_loop_finish:
  "emergency_loop ids n s = (s', r) \<Longrightarrow>
     finish_loop ids n s = (case r of None \<Rightarrow> s' | Some t \<Rightarrow> finish_task t s')"
proof (induction ids arbitrary: s)
  case Nil
  then show ?case by auto
next
  case (Cons i ids)
  show ?case
  proof (cases "map_of (resources s) i")
    case None
    then have u: "unregister i s = (Fulfilled (), s)" "unregister_begin i s = (s, None)"
      by (simp_all add: unregister_def unregister_begin_def)
    then show ?thesis using Cons by simp
  next
    case (Some info)
    let ?s = "s\<lparr>effects := effects s @ [Cleanup_called i]\<rparr>"
    have b: "unregister_begin i s = (?s, Some (i, info))"
      using Some by (simp add: unregister_begin_def)
    have r: "s' = ?s" "r = Some (Suspended_unregister i info (Emergency_loop ids n))"
      using Cons.prems b by simp_all
    have "unregister i s = unregister_resume i info ?s"
      using b by (simp add: unregister_def)
    then show ?thesis
      using r unregister_resume_facts(1)[of i info ?s]
      by (cases "unregister_resume i info ?s") (simp add: finish_task_def)
  qed
qed

lemma performEmergencyCleanup_complete_eq:
  "performEmergencyCleanup_complete s =
     finish_loop
       (map fst (take (length (resources s) div 4) (sort_key (\<lambda>(i, info). lastAccessed info) (resources s))))
       (length (resources s) div 4)
       (s\<lparr>effects := effects s @ [Error_emergency_initiated]\<rparr>)"
proof -
  let ?ids = "map fst (take (length (resources s) div 4) (sort_key (\<lambda>(i, info). lastAccessed info) (resources s)))"
  let ?s0 = "s\<lparr>effects := effects s @ [Error_emergency_initiated]\<rparr>"
  obtain s' r where e: "emergency_loop ?ids (length (resources s) div 4) ?s0 = (s', r)"
    by (cases "emergency_loop ?ids (length (resources s) div 4) ?s0")
  have p: "performEmergencyCleanup s = (s', r)"
    using e by (simp add: performEmergencyCleanup_def Let_def)
  show ?thesis
    using emergency_loop_finish[OF e] p
    by (simp add: performEmergencyCleanup_complete_def split: option.splits)
qed

lemma length_filter_not_in:
  assumes "distinct xs" and "distinct ys" and "set ys \<subseteq> set xs"
  shows "length (filter (\<lambda>p. p \<notin> set ys) xs) = length xs - length ys"
proof -
  have "set (filter (\<lambda>p. p \<in> set ys) xs) = set ys" using assms(3) by auto
  moreover have "distinct (filter (\<lambda>p. p \<in> set ys) xs)" using assms(1) by simp
  ultimately have "length (filter (\<lambda>p. p \<in> set ys) xs) = length ys"
    using assms(2) by (metis distinct_card)
  moreover have "length (filter (\<lambda>p. p \<in> set ys) xs) + length (filter (\<lambda>p. \<not> p \<in> set ys) xs) = length xs"
    by (rule sum_length_filter_compl)
  ultimately show ?thesis by simp
qed

lemma take_sorted_le_rest:
  assumes "e \<in> set (take k (sort_key f xs))" and "x \<in> set xs" and "x \<notin> set (take k (sort_key f xs))"
  shows "f e \<le> f x"
proof -
  let ?ys = "sort_key f xs"
  have "sorted (map f (take k ?ys @ drop k ?ys))" by simp
  then have le: "\<forall>a\<in>set (map f (take k ?ys)). \<forall>b\<in>set (map f (drop k ?ys)). a \<le> b"
    unfolding map_append sorted_append by blast
  have "x \<in> set (take k ?ys @ drop k ?ys)" using assms(2) by simp
  then have "x \<in> set (drop k ?ys)" using assms(3) by (simp only: set_append) blast
  then show ?thesis using le assms(1) by auto
qed

lemma emergency_eviction:
  assumes "distinct (map fst (resources s))"
  shows "resources (performEmergencyCleanup_complete s)
           = filter (\<lambda>p. p \<notin> set (take (length (resources s) div 4)
                                   (sort_key (\<lambda>(i, info). lastAccessed info) (resources s))))
               (resources s)"
    and "length (resources (performEmergencyCleanup_complete s))
           = length (resources s) - length (resources s) div 4"
    and "cleanup_calls (effects (performEmergencyCleanup_complete s))
           = cleanup_calls (effects s)
             @ map fst (take (length (resources s) div 4)
                          (sort_key (\<lambda>(i, info). lastAccessed info) (resources s)))"
    and "maxResources (performEmergencyCleanup_complete s) = maxResources s"
proof -
  let ?f = "\<lambda>(i, info). lastAccessed info :: int"
  let ?n = "length (resources s)"
  let ?ev = "take (?n div 4) (sort_key ?f (resources s))"
  let ?s0 = "s\<lparr>effects := effects s @ [Error_emergency_initiated]\<rparr>"
  have dx: "distinct (resources s)" using assms by (simp add: distinct_map)
  have sub: "set ?ev \<subseteq> set (resources s)" using set_take_subset[of "?n div 4" "sort_key ?f (resources s)"] by simp
  have dev: "distinct ?ev" using dx by simp
  have dkeys: "distinct (map fst ?ev)"
  proof -
    have "distinct (map fst (sort_key ?f (resources s)))"
      using assms by (metis distinct_map distinct_sort set_sort)
    then show ?thesis by (simp add: take_map[symmetric] del: take_map)
  qed
  have key: "(case p of (k, v) \<Rightarrow> k \<notin> set (map fst ?ev)) = (p \<notin> set ?ev)"
    if "p \<in> set (resources s)" for p
  proof -
    obtain k v where p: "p = (k, v)" by (cases p)
    have "(k, v) \<in> set ?ev" if "(k, v') \<in> set ?ev" for v'
    proof -
      have "(k, v') \<in> set (resources s)" using that sub by blast
      then have "v' = v" using \<open>p \<in> set (resources s)\<close> p assms by (auto dest: eq_key_imp_eq_value)
      then show ?thesis using that by simp
    qed
    then show ?thesis unfolding p by force
  qed
  have res: "resources (performEmergencyCleanup_complete s) = filter (\<lambda>p. p \<notin> set ?ev) (resources s)"
  proof -
    have r0: "resources ?s0 = resources s" by simp
    have "filter (\<lambda>(k, v). k \<notin> set (map fst ?ev)) (resources s)
        = filter (\<lambda>p. p \<notin> set ?ev) (resources s)"
      by (rule filter_cong[OF refl]) (rule key)
    then show ?thesis
      unfolding performEmergencyCleanup_complete_eq resources_finish_loop r0 .
  qed
  show "resources (performEmergencyCleanup_complete s) = filter (\<lambda>p. p \<notin> set ?ev) (resources s)"
    by (rule res)
  have "length ?ev = ?n div 4" by simp
  then show "length (resources (performEmergencyCleanup_complete s)) = ?n - ?n div 4"
    unfolding res using length_filter_not_in[OF dx dev sub] by simp
  have "set (map fst ?ev) \<subseteq> fst ` set (resources ?s0)" using sub by auto
  from cleanup_calls_finish_loop[OF dkeys this]
  show "cleanup_calls (effects (performEmergencyCleanup_complete s))
           = cleanup_calls (effects s) @ map fst ?ev"
    unfolding performEmergencyCleanup_complete_eq by (simp add: cleanup_calls_append)
  show "maxResources (performEmergencyCleanup_complete s) = maxResources s"
    unfolding performEmergencyCleanup_complete_eq by (simp add: maxResources_finish_loop)
qed

lemma update_fresh: "map_of al k = None \<Longrightarrow> AList.update k v al = al @ [(k, v)]"
  by (induction al) (auto split: if_splits)

lemma resources_finish_task:
  "resources (finish_task (Suspended_unregister i info k) s)
     = filter (\<lambda>(k', v). k' \<notin> set (i # (case k of Nobody \<Rightarrow> [] | Emergency_loop ids n \<Rightarrow> ids)))
         (resources s)"
proof -
  obtain s1 where u: "unregister_resume i info s = (Fulfilled (), s1)"
    using unregister_resume_facts(1)[of i info s] by (cases "unregister_resume i info s") simp
  have r1: "resources s1 = AList.delete i (resources s)"
    using unregister_resume_facts(2)[of i info s] u by simp
  show ?thesis
  proof (cases k)
    case Nobody
    then show ?thesis using u r1
      by (auto simp: finish_task_def AList.delete_eq intro!: filter_cong)
  next
    case (Emergency_loop ids n)
    have "filter (\<lambda>(k', v). k' \<notin> set ids) (AList.delete i (resources s))
        = filter (\<lambda>(k', v). k' \<notin> set (i # ids)) (resources s)"
      by (auto simp: AList.delete_eq intro!: filter_cong)
    then show ?thesis using u r1 Emergency_loop
      by (simp add: finish_task_def resources_finish_loop)
  qed
qed

lemma cleanup_calls_finish_task:
  assumes "k = Emergency_loop ids n" and "distinct (i # ids)"
    and "set ids \<subseteq> fst ` set (resources s)"
  shows "cleanup_calls (effects (finish_task (Suspended_unregister i info k) s))
           = cleanup_calls (effects s) @ ids"
proof -
  obtain s1 where u: "unregister_resume i info s = (Fulfilled (), s1)"
    using unregister_resume_facts(1)[of i info s] by (cases "unregister_resume i info s") simp
  have r1: "resources s1 = AList.delete i (resources s)"
    and c1: "cleanup_calls (effects s1) = cleanup_calls (effects s)"
    using unregister_resume_facts(2,4)[of i info s] u by simp_all
  have sub: "set ids \<subseteq> fst ` set (resources s1)"
  proof
    fix x assume x: "x \<in> set ids"
    then have "x \<noteq> i" using assms(2) by auto
    moreover obtain v where "(x, v) \<in> set (resources s)" using x assms(3) by auto
    ultimately show "x \<in> fst ` set (resources s1)"
      unfolding r1 by (force simp: AList.delete_eq)
  qed
  have d: "distinct ids" using assms(2) by simp
  show ?thesis
    using cleanup_calls_finish_loop[OF d sub, of n] u c1 assms(1)
    by (simp add: finish_task_def)
qed

lemma performEmergencyCleanup_shape:
  assumes "distinct (map fst (resources s))"
    and "ev = take (length (resources s) div 4) (sort_key (\<lambda>(i, info). lastAccessed info) (resources s))"
  shows "performEmergencyCleanup s =
           (case ev of
              [] \<Rightarrow> (s\<lparr>effects := effects s @ [Error_emergency_initiated, Error_emergency_completed 0]\<rparr>, None)
            | (i, info) # rest \<Rightarrow>
                (s\<lparr>effects := effects s @ [Error_emergency_initiated, Cleanup_called i]\<rparr>,
                 Some (Suspended_unregister i info
                         (Emergency_loop (map fst rest) (length (resources s) div 4)))))"
proof (cases ev)
  case Nil
  have "length ev = length (resources s) div 4" unfolding assms(2) by simp
  then have "length (resources s) div 4 = 0" using Nil by simp
  then show ?thesis
    using Nil assms(2) by (simp add: performEmergencyCleanup_def Let_def)
next
  case (Cons p rest)
  obtain i info where p: "p = (i, info)" by (cases p)
  have "(i, info) \<in> set ev" using Cons p by simp
  then have "(i, info) \<in> set (resources s)"
    unfolding assms(2) using set_take_subset[of "length (resources s) div 4"] by fastforce
  then have m: "map_of (resources s) i = Some info" using assms(1) by simp
  show ?thesis
    using Cons p m assms(2)[symmetric]
    by (simp add: performEmergencyCleanup_def Let_def unregister_begin_def)
qed

lemma resources_emergency_keys:
  "resources (performEmergencyCleanup_complete s)
     = filter (\<lambda>(k, v). k \<notin> set (map fst (take (length (resources s) div 4)
                 (sort_key (\<lambda>(i, info). lastAccessed info) (resources s)))))
         (resources s)"
  unfolding performEmergencyCleanup_complete_eq resources_finish_loop by simp

lemma register_complete_fresh:
  assumes "distinct (map fst (resources s))" and "map_of (resources s) (id_r res) = None"
    and "tracked = resources s @ [(id_r res, \<lparr>resource = res, createdAt = now, lastAccessed = now,
                                     accessCount = 1, memoryUsage = getMemoryUsage res\<rparr>)]"
    and "ev = take (length tracked div 4) (sort_key (\<lambda>(i, info). lastAccessed info) tracked)"
  shows "resources (register_complete res now s)
           = (if int (length (resources s)) + 1 > maxResources s
              then filter (\<lambda>(k, v). k \<notin> set (map fst ev)) tracked else tracked)"
    and "cleanup_calls (effects (register_complete res now s))
           = (if int (length (resources s)) + 1 > maxResources s
              then cleanup_calls (effects s) @ map fst ev else cleanup_calls (effects s))"
proof -
  let ?info = "\<lparr>resource = res, createdAt = now, lastAccessed = now,
                accessCount = 1, memoryUsage = getMemoryUsage res\<rparr>"
  let ?s2 = "s\<lparr>resources := tracked\<rparr>"
  let ?sw = "?s2\<lparr>effects := effects ?s2 @ [Warn_limit_exceeded (length (resources ?s2)) (maxResources ?s2)]\<rparr>"
  have up: "AList.update (id_r res) ?info (resources s) = tracked"
    unfolding assms(3) by (rule update_fresh[OF assms(2)])
  have fresh: "id_r res \<notin> fst ` set (resources s)"
    using assms(2) by (simp add: map_of_eq_None_iff)
  have d2: "distinct (map fst (resources ?sw))"
    using assms(1) fresh unfolding assms(3) by simp
  have ev': "ev = take (length (resources ?sw) div 4)
                   (sort_key (\<lambda>(i, info). lastAccessed info) (resources ?sw))"
    unfolding assms(4) by simp
  note shape = performEmergencyCleanup_shape[OF d2 ev']
  have len: "length tracked = length (resources s) + 1" unfolding assms(3) by simp
  show "resources (register_complete res now s)
           = (if int (length (resources s)) + 1 > maxResources s
              then filter (\<lambda>(k, v). k \<notin> set (map fst ev)) tracked else tracked)"
  proof (cases "int (length (resources s)) + 1 > maxResources s")
    case False
    then show ?thesis
      using assms(2) up len
      by (simp add: register_complete_def register_def Let_def finish_tasks_def)
  next
    case True
    show ?thesis
    proof (cases ev)
      case Nil
      then show ?thesis
        using True assms(2) up len shape
        by (simp add: register_complete_def register_def Let_def finish_tasks_def)
    next
      case (Cons p rest)
      obtain i info where p: "p = (i, info)" by (cases p)
      show ?thesis
        using True assms(2) up len shape Cons p
        by (simp add: register_complete_def register_def Let_def finish_tasks_def
            resources_finish_task)
    qed
  qed
  show "cleanup_calls (effects (register_complete res now s))
           = (if int (length (resources s)) + 1 > maxResources s
              then cleanup_calls (effects s) @ map fst ev else cleanup_calls (effects s))"
  proof (cases "int (length (resources s)) + 1 > maxResources s")
    case False
    then show ?thesis
      using assms(2) up len
      by (simp add: register_complete_def register_def Let_def finish_tasks_def
          cleanup_calls_append)
  next
    case True
    show ?thesis
    proof (cases ev)
      case Nil
      then show ?thesis
        using True assms(2) up len shape
        by (simp add: register_complete_def register_def Let_def finish_tasks_def
            cleanup_calls_append)
    next
      case (Cons p rest)
      obtain i info where p: "p = (i, info)" by (cases p)
      have sub: "set ev \<subseteq> set tracked"
        unfolding assms(4) using set_take_subset[of "length tracked div 4"] by fastforce
      have dk: "distinct (map fst ev)"
      proof -
        have "distinct (map fst tracked)" using d2 by simp
        then have "distinct (map fst (sort_key (\<lambda>(i, info). lastAccessed info) tracked))"
          by (metis distinct_map distinct_sort set_sort)
        then show ?thesis unfolding assms(4) by (simp add: take_map[symmetric] del: take_map)
      qed
      let ?s3 = "?sw\<lparr>effects := effects ?sw @ [Error_emergency_initiated, Cleanup_called i]\<rparr>"
      let ?s4 = "?s3\<lparr>effects := effects ?s3 @ [Emit_resource_registered (id_r res) (type_r res)]\<rparr>"
      have reg: "register res now s
          = (?s4, [Suspended_unregister i info (Emergency_loop (map fst rest) (length (resources ?sw) div 4))])"
        using True assms(2) up len shape Cons p
        by (simp add: register_def Let_def)
      have d: "distinct (i # map fst rest)" using dk Cons p by simp
      have s: "set (map fst rest) \<subseteq> fst ` set (resources ?s4)"
        using sub Cons by auto
      from cleanup_calls_finish_task[OF refl d s, of info]
      show ?thesis
        using True reg Cons p
        by (simp add: register_complete_def finish_tasks_def cleanup_calls_append)
    qed
  qed
qed

lemma four_tracked_eq:
  "four_tracked =
     \<lparr>resources =
        [(''r1'', \<lparr>resource = example_resource ''r1'', createdAt = 1, lastAccessed = 1,
                   accessCount = 1, memoryUsage = None\<rparr>),
         (''r2'', \<lparr>resource = example_resource ''r2'', createdAt = 2, lastAccessed = 2,
                   accessCount = 1, memoryUsage = None\<rparr>),
         (''r3'', \<lparr>resource = example_resource ''r3'', createdAt = 3, lastAccessed = 3,
                   accessCount = 1, memoryUsage = None\<rparr>),
         (''r4'', \<lparr>resource = example_resource ''r4'', createdAt = 4, lastAccessed = 4,
                   accessCount = 1, memoryUsage = None\<rparr>)],
      maxIdleTime = 300000, maxResources = 4,
      effects = [Emit_resource_registered ''r1'' ''buffer'', Emit_resource_registered ''r2'' ''buffer'',
                 Emit_resource_registered ''r3'' ''buffer'', Emit_resource_registered ''r4'' ''buffer'']\<rparr>"
  by (simp add: four_tracked_def register_def new_resource_manager_def example_resource_def Let_def)

lemma one_failing_eq:
  "one_failing =
     \<lparr>resources = [(''f'', \<lparr>resource = failing_resource, createdAt = 1, lastAccessed = 1,
                             accessCount = 1, memoryUsage = None\<rparr>)],
      maxIdleTime = 300000, maxResources = 100,
      effects = [Emit_resource_registered ''f'' ''socket'']\<rparr>"
  by (simp add: one_failing_def register_def new_resource_manager_def failing_resource_def Let_def)

lemma three_tracked_cap2_eq:
  "three_tracked_cap2 =
     \<lparr>resources =
        [(''r1'', \<lparr>resource = example_resource ''r1'', createdAt = 1, lastAccessed = 1,
                   accessCount = 1, memoryUsage = None\<rparr>),
         (''r2'', \<lparr>resource = example_resource ''r2'', createdAt = 2, lastAccessed = 2,
                   accessCount = 1, memoryUsage = None\<rparr>),
         (''r3'', \<lparr>resource = example_resource ''r3'', createdAt = 3, lastAccessed = 3,
                   accessCount = 1, memoryUsage = None\<rparr>)],
      maxIdleTime = 300000, maxResources = 2,
      effects = [Emit_resource_registered ''r1'' ''buffer'', Emit_resource_registered ''r2'' ''buffer'',
                 Warn_limit_exceeded 3 2, Error_emergency_initiated, Error_emergency_completed 0,
                 Emit_resource_registered ''r3'' ''buffer'']\<rparr>"
  by (simp add: three_tracked_cap2_def register_def new_resource_manager_def example_resource_def
      performEmergencyCleanup_def Let_def)

text \<open>
  Claim C2 as stated fails. With \<open>maxResources = 4\<close> and four resources tracked, when
  \<open>register\<close> of a fifth returns, the new resource is in the table and all four old ones
  still are: nothing was evicted before the insertion, and the eviction is not finished,
  one \<open>unregister\<close> being left suspended at its \<open>await\<close>. And when the id is already
  tracked (three tracked, \<open>maxResources = 2\<close>), the \<open>unregister\<close> of the old record, which
  \<open>register\<close> does not await, deletes the new record once it is resumed: the resource
  just registered is not tracked in the end.
\<close>

theorem register_eviction_not_finished_counterexample:
  "maxResources four_tracked = 4
   \<and> map fst (resources (fst (register (example_resource ''r5'') 5 four_tracked)))
       = [''r1'', ''r2'', ''r3'', ''r4'', ''r5'']
   \<and> length (snd (register (example_resource ''r5'') 5 four_tracked)) = 1
   \<and> maxResources three_tracked_cap2 = 2
   \<and> map fst (resources three_tracked_cap2) = [''r1'', ''r2'', ''r3'']
   \<and> map fst (resources (register_complete (example_resource ''r2'') 9 three_tracked_cap2))
       = [''r1'', ''r3'']"
  unfolding four_tracked_eq three_tracked_cap2_eq
  by (simp add: register_complete_def register_def performEmergencyCleanup_def unregister_begin_def
      unregister_resume_def finish_tasks_def finish_task_def example_resource_def Let_def)

text \<open>
  Claim C6. \<open>unregister(id)\<close> on a tracked resource calls the resource's \<open>cleanup\<close> first,
  while the record is still tracked. When the promise of \<open>cleanup\<close> has settled, in
  whatever state the call is resumed, the record under the id is deleted, whether
  \<open>cleanup\<close> was fulfilled or rejected; a rejection is written to the console and emitted
  as \<open>resource_cleanup_failed\<close>, and the promise of \<open>unregister\<close> is fulfilled all the
  same.
\<close>

theorem unregister_removes_regardless:
  assumes "map_of (resources s) i = Some info"
  shows "unregister_begin i s = (s\<lparr>effects := effects s @ [Cleanup_called i]\<rparr>, Some (i, info))
     \<and> (\<forall>s2. fst (unregister_resume i info s2) = Fulfilled ()
            \<and> resources (snd (unregister_resume i info s2)) = AList.delete i (resources s2)
            \<and> map_of (resources (snd (unregister_resume i info s2))) i = None
            \<and> effects (snd (unregister_resume i info s2))
                = effects s2 @ (case cleanup (resource info) of
                                  Fulfilled u \<Rightarrow> [Emit_resource_unregistered i (type_r (resource info))]
                                | Rejected error \<Rightarrow> [Error_failed_to_cleanup i error,
                                                    Emit_resource_cleanup_failed i error]))
     \<and> fst (unregister i s) = Fulfilled ()
     \<and> map_of (resources (snd (unregister i s))) i = None
     \<and> effects (snd (unregister i s))
         = effects s @ Cleanup_called i #
             (case cleanup (resource info) of
                Fulfilled u \<Rightarrow> [Emit_resource_unregistered i (type_r (resource info))]
              | Rejected error \<Rightarrow> [Error_failed_to_cleanup i error,
                                  Emit_resource_cleanup_failed i error])"
proof -
  have b: "unregister_begin i s = (s\<lparr>effects := effects s @ [Cleanup_called i]\<rparr>, Some (i, info))"
    using assms by (simp add: unregister_begin_def)
  have r: "fst (unregister_resume i info s2) = Fulfilled ()
            \<and> resources (snd (unregister_resume i info s2)) = AList.delete i (resources s2)
            \<and> map_of (resources (snd (unregister_resume i info s2))) i = None
            \<and> effects (snd (unregister_resume i info s2))
                = effects s2 @ (case cleanup (resource info) of
                                  Fulfilled u \<Rightarrow> [Emit_resource_unregistered i (type_r (resource info))]
                                | Rejected error \<Rightarrow> [Error_failed_to_cleanup i error,
                                                    Emit_resource_cleanup_failed i error])" for s2
    by (simp add: unregister_resume_def delete_conv split: settled.splits)
  have R: "\<forall>s2. fst (unregister_resume i info s2) = Fulfilled ()
            \<and> resources (snd (unregister_resume i info s2)) = AList.delete i (resources s2)
            \<and> map_of (resources (snd (unregister_resume i info s2))) i = None
            \<and> effects (snd (unregister_resume i info s2))
                = effects s2 @ (case cleanup (resource info) of
                                  Fulfilled u \<Rightarrow> [Emit_resource_unregistered i (type_r (resource info))]
                                | Rejected error \<Rightarrow> [Error_failed_to_cleanup i error,
                                                    Emit_resource_cleanup_failed i error])"
    by (intro allI) (rule r)
  have u: "unregister i s = unregister_resume i info (s\<lparr>effects := effects s @ [Cleanup_called i]\<rparr>)"
    using b by (simp add: unregister_def)
  have u1: "fst (unregister i s) = Fulfilled ()" unfolding u using r by blast
  have u2: "map_of (resources (snd (unregister i s))) i = None" unfolding u using r by blast
  have u3: "effects (snd (unregister i s))
         = effects s @ Cleanup_called i #
             (case cleanup (resource info) of
                Fulfilled u \<Rightarrow> [Emit_resource_unregistered i (type_r (resource info))]
              | Rejected error \<Rightarrow> [Error_failed_to_cleanup i error,
                                  Emit_resource_cleanup_failed i error])"
    unfolding u using r[of "s\<lparr>effects := effects s @ [Cleanup_called i]\<rparr>"] by simp
  show ?thesis
    by (intro conjI) (fact b R u1 u2 u3)+
qed

theorem unregister_removes_regardless_witness:
  "map_of (resources (snd (unregister ''f'' one_failing))) ''f'' = None
   \<and> fst (unregister ''f'' one_failing) = Fulfilled ()
   \<and> effects (snd (unregister ''f'' one_failing))
       = [Emit_resource_registered ''f'' ''socket'', Cleanup_called ''f'',
          Error_failed_to_cleanup ''f'' ''EIO'', Emit_resource_cleanup_failed ''f'' ''EIO'']"
proof -
  let ?info = "\<lparr>resource = failing_resource, createdAt = 1, lastAccessed = 1,
                accessCount = 1, memoryUsage = None\<rparr>"
  have h: "map_of (resources one_failing) ''f'' = Some ?info"
    unfolding one_failing_eq by simp
  note T = unregister_removes_regardless[OF h]
  have a: "map_of (resources (snd (unregister ''f'' one_failing))) ''f'' = None"
    by (rule T[THEN conjunct2, THEN conjunct2, THEN conjunct2, THEN conjunct1])
  have b: "fst (unregister ''f'' one_failing) = Fulfilled ()"
    by (rule T[THEN conjunct2, THEN conjunct2, THEN conjunct1])
  have c: "effects (snd (unregister ''f'' one_failing))
       = [Emit_resource_registered ''f'' ''socket'', Cleanup_called ''f'',
          Error_failed_to_cleanup ''f'' ''EIO'', Emit_resource_cleanup_failed ''f'' ''EIO'']"
    using T[THEN conjunct2, THEN conjunct2, THEN conjunct2, THEN conjunct2]
    by (simp add: one_failing_eq failing_resource_def)
  show ?thesis by (intro conjI) (fact a b c)+
qed

text \<open>
  Claim C2, amended. \<open>register\<close> of a resource whose id is not tracked inserts it first.
  If the count \<open>n\<close> of tracked resources, the new one included, then exceeds
  \<open>maxResources\<close>, it starts the emergency eviction of the \<open>n div 4\<close> resources accessed
  least recently (the new one takes part in the ranking). Each is evicted as by
  \<open>unregister\<close>: once the eviction has run to its end, \<open>cleanup\<close> was called exactly for
  these, oldest first, exactly these are gone from the table, and none of them was
  accessed later than a resource that stays.
\<close>

theorem register_starts_eviction_after_insert:
  assumes "distinct (map fst (resources s))"
    and "map_of (resources s) (id_r res) = None"
    and "int (length (resources s)) + 1 > maxResources s"
    and "tracked = resources s @ [(id_r res, \<lparr>resource = res, createdAt = now, lastAccessed = now,
                                     accessCount = 1, memoryUsage = getMemoryUsage res\<rparr>)]"
    and "evicted = take (length tracked div 4) (sort_key (\<lambda>(i, info). lastAccessed info) tracked)"
  shows "length evicted = length tracked div 4
     \<and> resources (register_complete res now s) = filter (\<lambda>p. p \<notin> set evicted) tracked
     \<and> cleanup_calls (effects (register_complete res now s))
         = cleanup_calls (effects s) @ map fst evicted
     \<and> (\<forall>e\<in>set evicted. \<forall>k\<in>set (resources (register_complete res now s)).
           lastAccessed (snd e) \<le> lastAccessed (snd k))"
proof -
  have fresh: "id_r res \<notin> fst ` set (resources s)"
    using assms(2) by (simp add: map_of_eq_None_iff)
  have dt: "distinct (map fst tracked)" using assms(1) fresh unfolding assms(4) by simp
  have sub: "set evicted \<subseteq> set tracked"
    unfolding assms(5) using set_take_subset[of "length tracked div 4"] by fastforce
  have l: "length evicted = length tracked div 4" unfolding assms(5) by simp
  have key: "(case p of (k, v) \<Rightarrow> k \<notin> set (map fst evicted)) = (p \<notin> set evicted)"
    if "p \<in> set tracked" for p
  proof -
    obtain k v where p: "p = (k, v)" by (cases p)
    have "(k, v) \<in> set evicted" if "(k, v') \<in> set evicted" for v'
    proof -
      have "(k, v') \<in> set tracked" using that sub by blast
      then have "v' = v" using \<open>p \<in> set tracked\<close> p dt by (auto dest: eq_key_imp_eq_value)
      then show ?thesis using that by simp
    qed
    then show ?thesis unfolding p by force
  qed
  have "filter (\<lambda>(k, v). k \<notin> set (map fst evicted)) tracked = filter (\<lambda>p. p \<notin> set evicted) tracked"
    by (rule filter_cong[OF refl]) (rule key)
  then have r: "resources (register_complete res now s) = filter (\<lambda>p. p \<notin> set evicted) tracked"
    using register_complete_fresh(1)[OF assms(1,2,4,5)] assms(3) by simp
  have c: "cleanup_calls (effects (register_complete res now s))
         = cleanup_calls (effects s) @ map fst evicted"
    using register_complete_fresh(2)[OF assms(1,2,4,5)] assms(3) by simp
  have o: "lastAccessed (snd e) \<le> lastAccessed (snd k)"
    if "e \<in> set evicted" and "k \<in> set (resources (register_complete res now s))" for e k
  proof -
    have "k \<in> set tracked" and "k \<notin> set evicted" using that(2) unfolding r by simp_all
    from take_sorted_le_rest[OF that(1)[unfolded assms(5)] this(1) this(2)[unfolded assms(5)]]
    show ?thesis by (simp add: case_prod_unfold)
  qed
  have O: "\<forall>e\<in>set evicted. \<forall>k\<in>set (resources (register_complete res now s)).
           lastAccessed (snd e) \<le> lastAccessed (snd k)"
    using o by blast
  show ?thesis by (intro conjI) (fact l r c O)+
qed

theorem register_starts_eviction_after_insert_witness:
  "cleanup_calls (effects (register_complete (example_resource ''r5'') 5 four_tracked)) = [''r1'']
   \<and> map fst (resources (register_complete (example_resource ''r5'') 5 four_tracked))
       = [''r2'', ''r3'', ''r4'', ''r5'']"
proof -
  let ?res = "example_resource ''r5''"
  let ?tracked = "resources four_tracked @ [(id_r ?res, \<lparr>resource = ?res, createdAt = 5, lastAccessed = 5,
                       accessCount = 1, memoryUsage = getMemoryUsage ?res\<rparr>)]"
  let ?evicted = "take (length ?tracked div 4) (sort_key (\<lambda>(i, info). lastAccessed info) ?tracked)"
  have h1: "distinct (map fst (resources four_tracked))" unfolding four_tracked_eq by simp
  have h2: "map_of (resources four_tracked) (id_r ?res) = None"
    unfolding four_tracked_eq by (simp add: example_resource_def)
  have h3: "int (length (resources four_tracked)) + 1 > maxResources four_tracked"
    unfolding four_tracked_eq by simp
  have ev: "?evicted = [(''r1'', \<lparr>resource = example_resource ''r1'', createdAt = 1, lastAccessed = 1,
                   accessCount = 1, memoryUsage = None\<rparr>)]"
    unfolding four_tracked_eq by (simp add: sort_key_def example_resource_def)
  note T = register_starts_eviction_after_insert[OF h1 h2 h3 refl refl]
  have a: "cleanup_calls (effects (register_complete ?res 5 four_tracked)) = [''r1'']"
    using T[THEN conjunct2, THEN conjunct2, THEN conjunct1] unfolding ev
    by (simp add: four_tracked_eq)
  have b: "map fst (resources (register_complete ?res 5 four_tracked)) = [''r2'', ''r3'', ''r4'', ''r5'']"
    using T[THEN conjunct2, THEN conjunct1] unfolding ev
    by (simp add: four_tracked_eq example_resource_def)
  show ?thesis using a b by (rule conjI)
qed

text \<open>
  Claim C10. Run to its end, the emergency eviction removes exactly \<open>n div 4\<close> of the \<open>n\<close>
  tracked resources, those accessed least recently. \<open>register\<close> inserts before it compares
  the count with \<open>maxResources\<close>, so the eviction runs on the table that holds the new
  resource. With \<open>n \<le> 3\<close> nothing is evicted and \<open>cleanup\<close> is called for nobody; and a
  cap of at most 2 is never restored: whenever the count is above such a cap, it still is
  after the eviction.
\<close>

theorem emergency_eviction_quarter:
  assumes "distinct (map fst (resources s))"
    and "evicted = take (length (resources s) div 4)
                     (sort_key (\<lambda>(i, info). lastAccessed info) (resources s))"
  shows "length evicted = length (resources s) div 4
     \<and> resources (performEmergencyCleanup_complete s) = filter (\<lambda>p. p \<notin> set evicted) (resources s)
     \<and> length (resources (performEmergencyCleanup_complete s))
         = length (resources s) - length (resources s) div 4
     \<and> (\<forall>e\<in>set evicted. \<forall>k\<in>set (resources (performEmergencyCleanup_complete s)).
           lastAccessed (snd e) \<le> lastAccessed (snd k))
     \<and> (\<forall>(res :: native_resource) now. map_of (resources s) (id_r res) = None \<longrightarrow>
           resources (register_complete res now s)
             = (let inserted = s\<lparr>resources := resources s @
                        [(id_r res, \<lparr>resource = res, createdAt = now, lastAccessed = now,
                                     accessCount = 1, memoryUsage = getMemoryUsage res\<rparr>)]\<rparr>
                in if int (length (resources inserted)) > maxResources s
                   then resources (performEmergencyCleanup_complete inserted)
                   else resources inserted))
     \<and> (length (resources s) \<le> 3 \<longrightarrow>
           resources (performEmergencyCleanup_complete s) = resources s
         \<and> cleanup_calls (effects (performEmergencyCleanup_complete s)) = cleanup_calls (effects s))
     \<and> (int (length (resources s)) > maxResources s \<and> maxResources s \<le> 2 \<longrightarrow>
           int (length (resources (performEmergencyCleanup_complete s)))
             > maxResources (performEmergencyCleanup_complete s))"
proof -
  let ?c = "performEmergencyCleanup_complete s"
  note E = emergency_eviction[OF assms(1)]
  have l: "length evicted = length (resources s) div 4" unfolding assms(2) by simp
  have r: "resources ?c = filter (\<lambda>p. p \<notin> set evicted) (resources s)"
    unfolding assms(2) by (rule E(1))
  have n: "length (resources ?c) = length (resources s) - length (resources s) div 4"
    by (rule E(2))
  have O: "\<forall>e\<in>set evicted. \<forall>k\<in>set (resources ?c). lastAccessed (snd e) \<le> lastAccessed (snd k)"
  proof (intro ballI)
    fix e k assume e: "e \<in> set evicted" and k: "k \<in> set (resources ?c)"
    have "k \<in> set (resources s)" and "k \<notin> set evicted" using k unfolding r by simp_all
    from take_sorted_le_rest[OF e[unfolded assms(2)] this(1) this(2)[unfolded assms(2)]]
    show "lastAccessed (snd e) \<le> lastAccessed (snd k)" by (simp add: case_prod_unfold)
  qed
  have R: "\<forall>(res :: native_resource) now. map_of (resources s) (id_r res) = None \<longrightarrow>
           resources (register_complete res now s)
             = (let inserted = s\<lparr>resources := resources s @
                        [(id_r res, \<lparr>resource = res, createdAt = now, lastAccessed = now,
                                     accessCount = 1, memoryUsage = getMemoryUsage res\<rparr>)]\<rparr>
                in if int (length (resources inserted)) > maxResources s
                   then resources (performEmergencyCleanup_complete inserted)
                   else resources inserted)"
  proof (intro allI impI)
    fix res :: native_resource and now :: int
    assume f: "map_of (resources s) (id_r res) = None"
    show "resources (register_complete res now s)
             = (let inserted = s\<lparr>resources := resources s @
                        [(id_r res, \<lparr>resource = res, createdAt = now, lastAccessed = now,
                                     accessCount = 1, memoryUsage = getMemoryUsage res\<rparr>)]\<rparr>
                in if int (length (resources inserted)) > maxResources s
                   then resources (performEmergencyCleanup_complete inserted)
                   else resources inserted)"
      using register_complete_fresh(1)[OF assms(1) f refl refl, of now]
      by (simp add: Let_def resources_emergency_keys)
  qed
  have S: "length (resources s) \<le> 3 \<longrightarrow>
           resources ?c = resources s \<and> cleanup_calls (effects ?c) = cleanup_calls (effects s)"
  proof
    assume "length (resources s) \<le> 3"
    then have z: "length (resources s) div 4 = 0" by simp
    have ev: "take (length (resources s) div 4)
                (sort_key (\<lambda>(i, info). lastAccessed info) (resources s)) = []"
      unfolding z by simp
    show "resources ?c = resources s \<and> cleanup_calls (effects ?c) = cleanup_calls (effects s)"
      using E(1) E(3) unfolding ev by simp
  qed
  have C: "int (length (resources s)) > maxResources s \<and> maxResources s \<le> 2 \<longrightarrow>
           int (length (resources ?c)) > maxResources ?c"
    unfolding n E(4) by arith
  show ?thesis by (intro conjI) (fact l r n O R S C)+
qed

theorem emergency_eviction_quarter_witness:
  "resources (performEmergencyCleanup_complete three_tracked_cap2) = resources three_tracked_cap2
   \<and> maxResources three_tracked_cap2 = 2
   \<and> length (resources (performEmergencyCleanup_complete three_tracked_cap2)) = 3"
proof -
  have h1: "distinct (map fst (resources three_tracked_cap2))"
    unfolding three_tracked_cap2_eq by simp
  have le: "length (resources three_tracked_cap2) \<le> 3" unfolding three_tracked_cap2_eq by simp
  note T = emergency_eviction_quarter[OF h1 refl]
  have a: "resources (performEmergencyCleanup_complete three_tracked_cap2) = resources three_tracked_cap2"
    using T[THEN conjunct2, THEN conjunct2, THEN conjunct2, THEN conjunct2, THEN conjunct2,
            THEN conjunct1, THEN mp, OF le] by (rule conjunct1)
  have b: "maxResources three_tracked_cap2 = 2" unfolding three_tracked_cap2_eq by simp
  have "length (resources three_tracked_cap2) = 3" unfolding three_tracked_cap2_eq by simp
  then have c: "length (resources (performEmergencyCleanup_complete three_tracked_cap2)) = 3"
    by (simp only: a)
  show ?thesis by (intro conjI) (fact a b c)+
qed

end
